theory Spec2Isabelle
  imports Complex_Main "HOL-Library.Word" "HOL-Library.Log_Nat"
begin

section \<open>JavaScript values as the observer receives them\<close>

text \<open>
  The observer (\<^verbatim>\<open>frontend/src/App.jsx\<close>) is a React component whose WebSocket handler
  feeds the result of \<^verbatim>\<open>JSON.parse(event.data)\<close> into its state setters. A message is
  therefore an arbitrary JSON value, not a typed record: nothing in the handler checks the
  shape of what arrives. JSON numbers are modelled as rationals (every finite double is one);
  inbound strings as byte strings, which the handler only compares with ASCII literals,
  concatenates and stores. A JavaScript value that may be \<^verbatim>\<open>undefined\<close> is a
  \<open>json option\<close>, with \<open>None\<close> for \<^verbatim>\<open>undefined\<close>.
\<close>

datatype json =
    JNull
  | JBool bool
  | JNum rat
  | JStr string
  | JArr "json list"
  | JObj "(string \<times> json) list"

type_synonym jsval = "json option"

datatype js_error = SyntaxError | TypeError

text \<open>
  Property access \<^verbatim>\<open>v.k\<close> on a non-null value, for the property names this program
  reads (\<^verbatim>\<open>type steps index duration_ms error image source fields action url selector
  text amount ms\<close>): none of them is a built-in property of a string, number, boolean or
  array, so only an object that has the key yields a value. An object is the association
  list of its own properties, each key once.
\<close>

definition js_get :: "json \<Rightarrow> string \<Rightarrow> jsval" where
  "js_get v k = (case v of JObj kvs \<Rightarrow> map_of kvs k | _ \<Rightarrow> None)"

text \<open>Truthiness (\<^verbatim>\<open>if (v)\<close>, \<^verbatim>\<open>!v\<close>, \<^verbatim>\<open>a || b\<close>, \<^verbatim>\<open>a && b\<close>).\<close>

fun truthy :: "jsval \<Rightarrow> bool" where
  "truthy None = False"
| "truthy (Some JNull) = False"
| "truthy (Some (JBool b)) = b"
| "truthy (Some (JNum r)) = (r \<noteq> 0)"
| "truthy (Some (JStr s)) = (s \<noteq> [])"
| "truthy (Some (JArr xs)) = True"
| "truthy (Some (JObj kvs)) = True"

text \<open>\<^verbatim>\<open>v == null\<close>, the test behind \<^verbatim>\<open>??\<close> and \<^verbatim>\<open>!= null\<close>.\<close>

fun nullish :: "jsval \<Rightarrow> bool" where
  "nullish None = True"
| "nullish (Some JNull) = True"
| "nullish (Some v) = False"

definition js_or :: "jsval \<Rightarrow> jsval \<Rightarrow> jsval" where
  "js_or a b = (if truthy a then a else b)"

definition nullish_coalesce :: "jsval \<Rightarrow> jsval \<Rightarrow> jsval" where
  "nullish_coalesce a b = (if nullish a then b else a)"

text \<open>
  \<^verbatim>\<open>idx === message.index\<close>, with \<^verbatim>\<open>idx\<close> an array index: strict equality holds only
  for a number of the same value.
\<close>

fun index_is :: "jsval \<Rightarrow> nat \<Rightarrow> bool" where
  "index_is (Some (JNum r)) idx = (r = of_nat idx)"
| "index_is v idx = False"

subsection \<open>String conversion in template literals\<close>

text \<open>
  A template literal converts each substitution with the language's \<^verbatim>\<open>ToString\<close>. The
  digits printed for a number are the runtime's business and are taken as the parameter
  \<open>nts\<close>. An array prints its elements joined by commas, \<^verbatim>\<open>null\<close> elements as the
  empty string. A plain object prints as \<^verbatim>\<open>[object Object]\<close>, unless it has an own
  \<^verbatim>\<open>toString\<close> property: a parsed JSON value is never callable, the inherited
  \<^verbatim>\<open>valueOf\<close> returns the object itself, and the conversion throws a TypeError.
\<close>

fun join_commas :: "(js_error + string) list \<Rightarrow> js_error + string" where
  "join_commas [] = Inr []"
| "join_commas [r] = r"
| "join_commas (r # rs) =
     (case r of Inl e \<Rightarrow> Inl e
      | Inr s \<Rightarrow> (case join_commas rs of Inl e \<Rightarrow> Inl e | Inr t \<Rightarrow> Inr (s @ '','' @ t)))"

fun to_string :: "(rat \<Rightarrow> string) \<Rightarrow> json \<Rightarrow> js_error + string" where
  "to_string nts JNull = Inr ''null''"
| "to_string nts (JBool b) = Inr (if b then ''true'' else ''false'')"
| "to_string nts (JNum r) = Inr (nts r)"
| "to_string nts (JStr s) = Inr s"
| "to_string nts (JArr xs) =
     join_commas (map (\<lambda>x. if x = JNull then Inr [] else to_string nts x) xs)"
| "to_string nts (JObj kvs) =
     (if ''toString'' \<in> fst ` set kvs then Inl TypeError else Inr ''[object Object]'')"

definition template_string :: "(rat \<Rightarrow> string) \<Rightarrow> jsval \<Rightarrow> js_error + string" where
  "template_string nts v = (case v of None \<Rightarrow> Inr ''undefined'' | Some j \<Rightarrow> to_string nts j)"

section \<open>The observer's state\<close>

datatype step_status = Pending | Active | Completed | Failed

text \<open>
  A stored step is the object literal \<^verbatim>\<open>{...step, status, description, duration_ms}\<close>:
  the plan entry it was spread from, and the properties the handlers write. The handlers
  assign \<^verbatim>\<open>status\<close> one of four string literals and nothing else.
\<close>

record step =
  source :: json
  status :: step_status
  description :: jsval
  duration_ms :: jsval
  error :: jsval

datatype task_state = Idle | Running | TaskCompleted

datatype connection_state = Connected | Disconnected | ConnectionError

datatype ready_state = CONNECTING | OPEN | CLOSING | CLOSED

text \<open>
  Text typed by the user is a sequence of UTF-16 code units, the unit \<^verbatim>\<open>trim\<close> works on.
\<close>

type_synonym js_string = "16 word list"

record credentials =
  username :: js_string
  email :: js_string
  password :: js_string

datatype outbound =
    START_TASK js_string
  | CREDENTIALS_PROVIDED credentials

text \<open>
  The component's \<^verbatim>\<open>useState\<close> cells, the socket behind \<^verbatim>\<open>wsRef\<close> (\<open>None\<close> while
  \<^verbatim>\<open>wsRef.current\<close> is null, otherwise its \<^verbatim>\<open>readyState\<close>) and the messages handed to
  \<^verbatim>\<open>send\<close> so far, oldest first.
\<close>

record app_state =
  goal :: js_string
  steps :: "step list"
  taskState :: task_state
  connection :: connection_state
  frame :: jsval
  frameSource :: jsval
  activeIndex :: jsval
  logs :: "json list"
  priceResults :: jsval
  credentialsRequest :: jsval
  credentialsData :: credentials
  wsRef :: "ready_state option"
  sent :: "outbound list"

definition empty_credentials :: credentials where
  "empty_credentials = \<lparr>username = [], email = [], password = []\<rparr>"

definition initial_state :: app_state where
  "initial_state =
     \<lparr>goal = [], steps = [], taskState = Idle, connection = Disconnected,
      frame = Some JNull, frameSource = Some JNull, activeIndex = Some JNull, logs = [],
      priceResults = Some JNull, credentialsRequest = Some JNull,
      credentialsData = empty_credentials, wsRef = None, sent = []\<rparr>"

section \<open>buildDescription\<close>

definition then_string ::
  "js_error + string \<Rightarrow> (string \<Rightarrow> js_error + string) \<Rightarrow> js_error + string" where
  "then_string r f = (case r of Inl e \<Rightarrow> Inl e | Inr s \<Rightarrow> f s)"

definition returned_string :: "js_error + string \<Rightarrow> js_error + jsval" where
  "returned_string r = (case r of Inl e \<Rightarrow> Inl e | Inr s \<Rightarrow> Inr (Some (JStr s)))"

definition buildDescription :: "(rat \<Rightarrow> string) \<Rightarrow> json \<Rightarrow> js_error + jsval" where
  "buildDescription nts step =
     (if \<not> truthy (Some step) then Inr (Some (JStr ''''))
      else if js_get step ''action'' = Some (JStr ''navigate'') then
        returned_string (then_string (template_string nts (js_get step ''url''))
          (\<lambda>u. Inr (''Navigate to '' @ u)))
      else if js_get step ''action'' = Some (JStr ''click'') then
        returned_string (then_string (template_string nts (js_get step ''selector''))
          (\<lambda>sel. Inr (''Click '' @ sel)))
      else if js_get step ''action'' = Some (JStr ''type'') then
        returned_string (then_string (template_string nts (js_get step ''text''))
          (\<lambda>t. then_string (template_string nts (js_get step ''selector''))
            (\<lambda>sel. Inr (''Type \"'' @ t @ ''\" in '' @ sel))))
      else if js_get step ''action'' = Some (JStr ''scroll'') then
        returned_string (then_string
          (template_string nts (nullish_coalesce (js_get step ''amount'') (Some (JNum 800))))
          (\<lambda>a. Inr (''Scroll '' @ a @ ''px'')))
      else if js_get step ''action'' = Some (JStr ''wait'') then
        returned_string (then_string
          (template_string nts (nullish_coalesce (js_get step ''ms'') (Some (JNum 1000))))
          (\<lambda>m. Inr (''Wait '' @ m @ ''ms'')))
      else if js_get step ''action'' = Some (JStr ''screenshot'') then
        Inr (Some (JStr ''Capture screenshot''))
      else Inr (js_get step ''action''))"

section \<open>The WebSocket message handler\<close>

text \<open>
  \<^verbatim>\<open>message.steps.map((step) => ({...step, status: 'pending', description:
  buildDescription(step), duration_ms: null}))\<close>. The spread keeps an \<^verbatim>\<open>error\<close> property
  the plan entry may carry; \<^verbatim>\<open>status\<close>, \<^verbatim>\<open>description\<close> and \<^verbatim>\<open>duration_ms\<close> are
  overwritten. An exception in \<^verbatim>\<open>buildDescription\<close> leaves \<^verbatim>\<open>map\<close> at once.
\<close>

definition enrich :: "(rat \<Rightarrow> string) \<Rightarrow> json \<Rightarrow> js_error + step" where
  "enrich nts st =
     (case buildDescription nts st of
        Inl e \<Rightarrow> Inl e
      | Inr d \<Rightarrow> Inr \<lparr>source = st, status = Pending, description = d,
                       duration_ms = Some JNull, error = js_get st ''error''\<rparr>)"

fun enrich_all :: "(rat \<Rightarrow> string) \<Rightarrow> json list \<Rightarrow> js_error + step list" where
  "enrich_all nts [] = Inr []"
| "enrich_all nts (x # xs) =
     (case enrich nts x of
        Inl e \<Rightarrow> Inl e
      | Inr st \<Rightarrow> (case enrich_all nts xs of Inl e \<Rightarrow> Inl e | Inr sts \<Rightarrow> Inr (st # sts)))"

text \<open>The three \<^verbatim>\<open>prev.map((step, idx) => ...)\<close> updaters of the step events.\<close>

definition start_step :: "jsval \<Rightarrow> step list \<Rightarrow> step list" where
  "start_step index prev =
     map (\<lambda>(idx, st).
            st\<lparr>status := (if index_is index idx then Active
                           else if status st = Active then Pending else status st)\<rparr>)
         (enumerate 0 prev)"

definition complete_step :: "jsval \<Rightarrow> jsval \<Rightarrow> step list \<Rightarrow> step list" where
  "complete_step index dur prev =
     map (\<lambda>(idx, st).
            if index_is index idx then st\<lparr>status := Completed, duration_ms := dur\<rparr> else st)
         (enumerate 0 prev)"

definition fail_step :: "jsval \<Rightarrow> jsval \<Rightarrow> jsval \<Rightarrow> step list \<Rightarrow> step list" where
  "fail_step index dur err prev =
     map (\<lambda>(idx, st).
            if index_is index idx
            then st\<lparr>status := Failed, duration_ms := dur, error := err\<rparr> else st)
         (enumerate 0 prev)"

text \<open>
  What arrives in \<^verbatim>\<open>event.data\<close>: text that \<^verbatim>\<open>JSON.parse\<close> rejects, or the value it
  parses to.
\<close>

datatype event_data = NotJSON | JSON json

text \<open>
  \<^verbatim>\<open>ws.onmessage\<close>. The result pairs the exception that left the handler, if any, with the
  state after the updates queued up to that point: a state setter that ran before a throw
  still takes effect. \<^verbatim>\<open>JSON.parse\<close> throws on malformed text, \<^verbatim>\<open>message.type\<close> throws
  when the message is \<^verbatim>\<open>null\<close>, and \<^verbatim>\<open>message.steps.map\<close> throws when \<^verbatim>\<open>steps\<close> is
  truthy but not an array.
\<close>

definition ws_onmessage ::
  "(rat \<Rightarrow> string) \<Rightarrow> app_state \<Rightarrow> event_data \<Rightarrow> js_error option \<times> app_state" where
  "ws_onmessage nts s ev =
     (case ev of
        NotJSON \<Rightarrow> (Some SyntaxError, s)
      | JSON message \<Rightarrow>
          if message = JNull then (Some TypeError, s)
          else
            let type = js_get message ''type'' in
            if type = Some (JStr ''TASK_STARTED'') then
              (let s1 = s\<lparr>taskState := Running\<rparr> in
               if truthy (js_get message ''steps'') then
                 (case js_get message ''steps'' of
                    Some (JArr xs) \<Rightarrow>
                      (case enrich_all nts xs of
                         Inl e \<Rightarrow> (Some e, s1)
                       | Inr enriched \<Rightarrow>
                           (None, s1\<lparr>steps := enriched, activeIndex := Some JNull\<rparr>))
                  | _ \<Rightarrow> (Some TypeError, s1))
               else (None, s1))
            else if type = Some (JStr ''STEP_STARTED'') then
              (None, s\<lparr>steps := start_step (js_get message ''index'') (steps s),
                        activeIndex := js_get message ''index''\<rparr>)
            else if type = Some (JStr ''STEP_COMPLETED'') then
              (None, s\<lparr>steps := complete_step (js_get message ''index'')
                                   (js_get message ''duration_ms'') (steps s),
                        activeIndex := Some JNull\<rparr>)
            else if type = Some (JStr ''STEP_FAILED'') then
              (None, s\<lparr>steps := fail_step (js_get message ''index'')
                                   (js_get message ''duration_ms'') (js_get message ''error'')
                                   (steps s),
                        activeIndex := Some JNull\<rparr>)
            else if type = Some (JStr ''TASK_COMPLETED'') then
              (None, s\<lparr>taskState := TaskCompleted\<rparr>)
            else if type = Some (JStr ''BROWSER_FRAME'') then
              (None, s\<lparr>frame := js_get message ''image'',
                        frameSource := js_or (js_get message ''source'') (Some JNull)\<rparr>)
            else
              let s1 = (if type = Some (JStr ''LOG'')
                        then s\<lparr>logs := drop (length (logs s) - 19) (logs s) @ [message]\<rparr>
                        else s);
                  s2 = (if type = Some (JStr ''PRICE_RESULTS'')
                        then s1\<lparr>priceResults := Some message\<rparr> else s1);
                  s3 = (if type = Some (JStr ''CREDENTIALS_REQUIRED'')
                        then s2\<lparr>credentialsRequest :=
                                   js_or (js_get message ''fields'') (Some (JObj []))\<rparr>
                        else s2)
              in (None, s3))"

definition after_message :: "(rat \<Rightarrow> string) \<Rightarrow> app_state \<Rightarrow> event_data \<Rightarrow> app_state" where
  "after_message nts s ev = snd (ws_onmessage nts s ev)"

text \<open>The observer state after a sequence of inbound messages, oldest first.\<close>

fun run :: "(rat \<Rightarrow> string) \<Rightarrow> app_state \<Rightarrow> event_data list \<Rightarrow> app_state" where
  "run nts s [] = s"
| "run nts s (ev # evs) = run nts (after_message nts s ev) evs"

section \<open>User commands\<close>

text \<open>
  \<^verbatim>\<open>String.prototype.trim\<close> strips white space and line terminators from both ends: TAB, LF,
  VT, FF, CR, SPACE, NBSP, the other space separators (U+1680, U+2000 to U+200A, U+202F,
  U+205F, U+3000), LS, PS and the byte order mark.
\<close>

definition js_whitespace :: "16 word \<Rightarrow> bool" where
  "js_whitespace c \<longleftrightarrow>
     c \<in> {0x9, 0xA, 0xB, 0xC, 0xD, 0x20, 0xA0, 0x1680, 0x2028, 0x2029, 0x202F, 0x205F,
          0x3000, 0xFEFF}
     \<or> (0x2000 \<le> c \<and> c \<le> 0x200A)"

definition trim :: "js_string \<Rightarrow> js_string" where
  "trim g = rev (dropWhile js_whitespace (rev (dropWhile js_whitespace g)))"

definition socket_open :: "app_state \<Rightarrow> bool" where
  "socket_open s \<longleftrightarrow> wsRef s = Some OPEN"

definition handleSubmit :: "app_state \<Rightarrow> app_state" where
  "handleSubmit s =
     (if trim (goal s) = [] then s
      else if \<not> socket_open s then s
      else s\<lparr>taskState := Running, sent := sent s @ [START_TASK (goal s)]\<rparr>)"

definition handleCredentialsSubmit :: "app_state \<Rightarrow> app_state" where
  "handleCredentialsSubmit s =
     (if \<not> socket_open s then s
      else s\<lparr>sent := sent s @ [CREDENTIALS_PROVIDED (credentialsData s)],
              credentialsRequest := Some JNull,
              credentialsData := empty_credentials\<rparr>)"

text \<open>The credentials modal is rendered under \<^verbatim>\<open>credentialsRequest && (...)\<close>.\<close>

definition modal_shown :: "app_state \<Rightarrow> bool" where
  "modal_shown s \<longleftrightarrow> truthy (credentialsRequest s)"

section \<open>The progress percentage\<close>

text \<open>
  \<^verbatim>\<open>Math.round((completed / steps.length) * 100)\<close> is computed in IEEE 754 double
  precision: the quotient is rounded to the nearest double, the product with 100 is rounded
  again, and \<^verbatim>\<open>Math.round\<close> takes the nearest integer, a half going up. Both counts and
  100 are doubles themselves, an array having fewer than \<open>2^32\<close> elements.

  A positive double is \<open>m * 2^(e - 52)\<close> with \<open>2^52 \<le> m < 2^53\<close>. \<open>binade x\<close> is the
  exponent \<open>e\<close> with \<open>2^e \<le> x < 2^(e + 1)\<close>, found from the bit lengths of numerator and
  denominator, and \<open>round_double\<close> rounds to the nearest multiple of \<open>2^(e - 52)\<close>, a tie
  going to the even multiple. The values that occur here lie between \<open>2^(-32)\<close> and 128,
  far from overflow and from the subnormal range.
\<close>

definition binade :: "rat \<Rightarrow> int" where
  "binade x =
     (let (p, q) = quotient_of x;
          d = bitlen p - bitlen q
      in if 2 powi d \<le> x then d else d - 1)"

definition round_half_even :: "rat \<Rightarrow> int" where
  "round_half_even m =
     (let f = \<lfloor>m\<rfloor>; r = m - of_int f
      in if r < 1 / 2 then f else if 1 / 2 < r then f + 1 else if even f then f else f + 1)"

definition round_double :: "rat \<Rightarrow> rat" where
  "round_double x =
     (if x = 0 then 0
      else let ulp = 2 powi (binade \<bar>x\<bar> - 52)
           in sgn x * (of_int (round_half_even (\<bar>x\<bar> / ulp)) * ulp))"

text \<open>\<^verbatim>\<open>Math.round\<close>: the nearest integer, the upper one of two equally near.\<close>

definition Math_round :: "rat \<Rightarrow> int" where
  "Math_round x = \<lfloor>x + 1 / 2\<rfloor>"

text \<open>
  \<^verbatim>\<open>steps.filter((s) => s.status === 'completed').length\<close>, the arithmetic of
  \<^verbatim>\<open>progress\<close> on the two counts, and \<^verbatim>\<open>progress\<close> itself.
\<close>

definition completed_count :: "step list \<Rightarrow> nat" where
  "completed_count xs = length (filter (\<lambda>s. status s = Completed) xs)"

definition percent :: "nat \<Rightarrow> nat \<Rightarrow> int" where
  "percent c n = Math_round (round_double (round_double (of_nat c / of_nat n) * 100))"

definition progress :: "step list \<Rightarrow> int" where
  "progress xs =
     (if length xs = 0 then 0 else percent (completed_count xs) (length xs))"

section \<open>Concrete inputs\<close>

text \<open>
  A number printer for concrete inputs. An integer of magnitude at most \<open>2^53\<close> is printed
  in decimal, as JavaScript prints it. For every other number the result is the placeholder
  \<^verbatim>\<open>?\<close>, which is not what JavaScript prints: the printer is meant for small integers
  only, and the theorems below hold for every printer.
\<close>

fun digits :: "nat \<Rightarrow> string" where
  "digits n =
     (if n < 10 then [char_of (48 + n)] else digits (n div 10) @ [char_of (48 + n mod 10)])"

declare digits.simps [simp del]

definition decimal :: "rat \<Rightarrow> string" where
  "decimal r =
     (let (p, q) = quotient_of r in
      if q \<noteq> 1 \<or> 2 ^ 53 < \<bar>p\<bar> then ''?''
      else if p < 0 then ''-'' @ digits (nat (- p)) else digits (nat p))"

subsection \<open>Wire messages of the event protocol\<close>

text \<open>
  The outbound events of the engine as the JSON envelopes \<^verbatim>\<open>{ type, ...fields }\<close> the
  observer receives, and plan entries of the action vocabulary. They are used to write
  concrete message sequences.
\<close>

definition task_started :: "json list \<Rightarrow> event_data" where
  "task_started plan = JSON (JObj [(''type'', JStr ''TASK_STARTED''), (''steps'', JArr plan)])"

definition step_started :: "rat \<Rightarrow> event_data" where
  "step_started i = JSON (JObj [(''type'', JStr ''STEP_STARTED''), (''index'', JNum i)])"

definition step_completed :: "rat \<Rightarrow> rat \<Rightarrow> event_data" where
  "step_completed i d =
     JSON (JObj [(''type'', JStr ''STEP_COMPLETED''), (''index'', JNum i),
                 (''duration_ms'', JNum d)])"

definition step_failed :: "rat \<Rightarrow> rat \<Rightarrow> string \<Rightarrow> event_data" where
  "step_failed i d e =
     JSON (JObj [(''type'', JStr ''STEP_FAILED''), (''index'', JNum i),
                 (''duration_ms'', JNum d), (''error'', JStr e)])"

definition task_completed :: event_data where
  "task_completed = JSON (JObj [(''type'', JStr ''TASK_COMPLETED'')])"

definition navigate :: "string \<Rightarrow> json" where
  "navigate url = JObj [(''action'', JStr ''navigate''), (''url'', JStr url)]"

definition click :: "string \<Rightarrow> json" where
  "click selector = JObj [(''action'', JStr ''click''), (''selector'', JStr selector)]"

definition type_text :: "string \<Rightarrow> string \<Rightarrow> json" where
  "type_text selector txt =
     JObj [(''action'', JStr ''type''), (''selector'', JStr selector), (''text'', JStr txt)]"

definition scroll :: "jsval \<Rightarrow> json" where
  "scroll amount =
     JObj ((''action'', JStr ''scroll'') #
           (case amount of None \<Rightarrow> [] | Some a \<Rightarrow> [(''amount'', a)]))"

definition wait :: "jsval \<Rightarrow> json" where
  "wait ms =
     JObj ((''action'', JStr ''wait'') # (case ms of None \<Rightarrow> [] | Some a \<Rightarrow> [(''ms'', a)]))"

definition screenshot :: json where
  "screenshot = JObj [(''action'', JStr ''screenshot'')]"

text \<open>A stored screenshot step with the given status, for concrete step lists.\<close>

definition screenshot_step :: "step_status \<Rightarrow> step" where
  "screenshot_step st =
     \<lparr>source = screenshot, status = st, description = Some (JStr ''Capture screenshot''),
      duration_ms = (if st = Completed then Some (JNum 12) else Some JNull), error = None\<rparr>"

section \<open>Notions used to state the properties\<close>

text \<open>The nine message kinds \<^verbatim>\<open>ws.onmessage\<close> compares \<^verbatim>\<open>message.type\<close> with.\<close>

definition handled_kinds :: "string list" where
  "handled_kinds =
     [''TASK_STARTED'', ''STEP_STARTED'', ''STEP_COMPLETED'', ''STEP_FAILED'',
      ''TASK_COMPLETED'', ''BROWSER_FRAME'', ''LOG'', ''PRICE_RESULTS'',
      ''CREDENTIALS_REQUIRED'']"

text \<open>
  A step of the action vocabulary as it arrives in a plan: its \<^verbatim>\<open>action\<close> is one of the
  six kinds, and each parameter a description reads (\<^verbatim>\<open>url\<close>, \<^verbatim>\<open>selector\<close>,
  \<^verbatim>\<open>text\<close>, \<^verbatim>\<open>amount\<close>, \<^verbatim>\<open>ms\<close>) is absent or a scalar: a string, a number, a
  boolean or null.
\<close>

fun scalar :: "jsval \<Rightarrow> bool" where
  "scalar (Some (JArr xs)) = False"
| "scalar (Some (JObj kvs)) = False"
| "scalar v = True"

definition vocabulary_step :: "json \<Rightarrow> bool" where
  "vocabulary_step x \<longleftrightarrow>
     js_get x ''action''
       \<in> set (map (\<lambda>a. Some (JStr a))
                [''navigate'', ''click'', ''type'', ''scroll'', ''wait'', ''screenshot''])
     \<and> scalar (js_get x ''url'') \<and> scalar (js_get x ''selector'')
     \<and> scalar (js_get x ''text'') \<and> scalar (js_get x ''amount'')
     \<and> scalar (js_get x ''ms'')"

text \<open>The number of steps shown as active.\<close>

definition active_count :: "step list \<Rightarrow> nat" where
  "active_count xs = length (filter (\<lambda>st. status st = Active) xs)"

text \<open>
  The moves of a step's status that count as going back: active to pending, completed to
  active or pending, failed to anything else.
\<close>

definition reverts :: "step_status \<Rightarrow> step_status \<Rightarrow> bool" where
  "reverts old new \<longleftrightarrow>
     (old = Active \<and> new = Pending)
     \<or> (old = Completed \<and> (new = Active \<or> new = Pending))
     \<or> (old = Failed \<and> new \<noteq> Failed)"

text \<open>
  A step event arrives in order when a \<^verbatim>\<open>STEP_STARTED\<close> names no completed or failed step
  and finds no other step active, and a \<^verbatim>\<open>STEP_COMPLETED\<close> names no failed step. An
  executor that runs the plan one step at a time, as the engine does, sends its events in
  order; the observer does not check it.
\<close>

definition step_event_in_order :: "app_state \<Rightarrow> json \<Rightarrow> bool" where
  "step_event_in_order s m \<longleftrightarrow>
     (if js_get m ''type'' = Some (JStr ''STEP_STARTED'') then
        list_all (\<lambda>(k, st). if index_is (js_get m ''index'') k
                             then status st \<noteq> Completed \<and> status st \<noteq> Failed
                             else status st \<noteq> Active)
          (enumerate 0 (steps s))
      else if js_get m ''type'' = Some (JStr ''STEP_COMPLETED'') then
        list_all (\<lambda>(k, st). \<not> (index_is (js_get m ''index'') k \<and> status st = Failed))
          (enumerate 0 (steps s))
      else True)"

text \<open>
  The progress value completed/total as a fraction of the plan, zero for an empty plan as
  in \<^verbatim>\<open>progress\<close>.
\<close>

definition completed_fraction :: "step list \<Rightarrow> rat" where
  "completed_fraction xs =
     (if xs = [] then 0 else of_nat (completed_count xs) / of_nat (length xs))"

text \<open>
  A message keeps the completed steps unless it is a \<^verbatim>\<open>STEP_STARTED\<close> or a
  \<^verbatim>\<open>STEP_FAILED\<close> whose index names a step that is completed.
\<close>

definition keeps_completed :: "app_state \<Rightarrow> json \<Rightarrow> bool" where
  "keeps_completed s m \<longleftrightarrow>
     (if js_get m ''type'' = Some (JStr ''STEP_STARTED'')
         \<or> js_get m ''type'' = Some (JStr ''STEP_FAILED'')
      then list_all (\<lambda>(k, st). \<not> (index_is (js_get m ''index'') k \<and> status st = Completed))
             (enumerate 0 (steps s))
      else True)"

text \<open>
  \<open>100 * c / n\<close> lies exactly halfway between two integers: \<open>200 * c + n\<close> is a multiple
  of \<open>2 * n\<close>.
\<close>

definition exact_half :: "nat \<Rightarrow> nat \<Rightarrow> bool" where
  "exact_half c n \<longleftrightarrow> (200 * c + n) mod (2 * n) = 0"

text \<open>
  What \<^verbatim>\<open>StepItem\<close> tests with \<^verbatim>\<open>step.duration_ms != null\<close>, and the values of
  \<^verbatim>\<open>message.duration_ms\<close> that are harmless to store: none, or a number that is not
  negative.
\<close>

definition has_duration :: "step \<Rightarrow> bool" where
  "has_duration st \<longleftrightarrow> \<not> nullish (duration_ms st)"

fun valid_duration :: "jsval \<Rightarrow> bool" where
  "valid_duration None = True"
| "valid_duration (Some JNull) = True"
| "valid_duration (Some (JNum r)) = (0 \<le> r)"
| "valid_duration (Some v) = False"

text \<open>
  The two things the observer leaves to the sender: a \<^verbatim>\<open>STEP_STARTED\<close> names no step
  that already has a duration, and the \<^verbatim>\<open>duration_ms\<close> of a \<^verbatim>\<open>STEP_COMPLETED\<close> or
  \<^verbatim>\<open>STEP_FAILED\<close> is valid.
\<close>

definition duration_respected :: "app_state \<Rightarrow> event_data \<Rightarrow> bool" where
  "duration_respected s ev =
     (case ev of
        NotJSON \<Rightarrow> True
      | JSON m \<Rightarrow>
          if js_get m ''type'' = Some (JStr ''STEP_STARTED'') then
            list_all (\<lambda>(k, st). \<not> (index_is (js_get m ''index'') k \<and> has_duration st))
              (enumerate 0 (steps s))
          else if js_get m ''type'' = Some (JStr ''STEP_COMPLETED'')
                  \<or> js_get m ''type'' = Some (JStr ''STEP_FAILED'') then
            valid_duration (js_get m ''duration_ms'')
          else True)"

fun durations_respected :: "(rat \<Rightarrow> string) \<Rightarrow> app_state \<Rightarrow> event_data list \<Rightarrow> bool" where
  "durations_respected nts s [] = True"
| "durations_respected nts s (ev # evs) =
     (duration_respected s ev \<and> durations_respected nts (after_message nts s ev) evs)"

text \<open>A step's duration is sound: absent, or a number not below zero on a terminal status.\<close>

definition duration_sound :: "step \<Rightarrow> bool" where
  "duration_sound st \<longleftrightarrow>
     valid_duration (duration_ms st)
     \<and> (nullish (duration_ms st) \<or> status st = Completed \<or> status st = Failed)"

section \<open>Messages the handler does not know\<close>

lemma malformed_message_discarded: "ws_onmessage nts s NotJSON = (Some SyntaxError, s)"
  by (simp add: ws_onmessage_def)

text \<open>
  C6. A parsed message whose \<^verbatim>\<open>type\<close> is none of the nine handled kinds (a different
  string, a value that is not a string, or no \<^verbatim>\<open>type\<close> at all) leaves the whole observer
  state as it was: steps, task state, active index, frame, frame source, logs, price
  results, credentials request and everything else. The handler returns normally, except
  for the message \<^verbatim>\<open>null\<close>, on which reading \<^verbatim>\<open>message.type\<close> throws before any update.
  In particular a running task stays running.
\<close>

theorem unhandled_message_discarded:
  assumes "js_get message ''type'' \<notin> (\<lambda>k. Some (JStr k)) ` set handled_kinds"
  shows "ws_onmessage nts s (JSON message)
           = (if message = JNull then Some TypeError else None, s)"
  using assms by (simp add: ws_onmessage_def handled_kinds_def Let_def)

theorem unhandled_message_discarded_witness:
  "js_get (JObj [(''type'', JStr ''PING'')]) ''type''
     \<notin> (\<lambda>k. Some (JStr k)) ` set handled_kinds
   \<and> ws_onmessage decimal (initial_state\<lparr>taskState := Running\<rparr>)
         (JSON (JObj [(''type'', JStr ''PING'')]))
       = (None, initial_state\<lparr>taskState := Running\<rparr>)
   \<and> taskState (after_message decimal (initial_state\<lparr>taskState := Running\<rparr>)
         (JSON (JObj [(''type'', JStr ''PING'')]))) = Running"
  using unhandled_message_discarded
    [of "JObj [(''type'', JStr ''PING'')]" decimal "initial_state\<lparr>taskState := Running\<rparr>"]
  by (simp add: js_get_def handled_kinds_def after_message_def)

section \<open>Submitting a goal and credentials\<close>

lemma list_all_dropWhile: "list_all P (dropWhile P g) \<longleftrightarrow> list_all P g"
  by (induction g) auto

lemma trim_empty_iff: "trim g = [] \<longleftrightarrow> list_all js_whitespace g"
  using list_all_dropWhile [of js_whitespace g] by (simp add: trim_def list_all_iff)

text \<open>
  C10. \<^verbatim>\<open>handleSubmit\<close> appends a \<^verbatim>\<open>START_TASK\<close> message carrying the goal to what the
  socket has sent and sets the task state to running exactly when the trimmed goal is not
  empty and the socket is open; otherwise it sends nothing and returns the state unchanged.
\<close>

theorem handleSubmit_sends_iff:
  "handleSubmit s =
     (if trim (goal s) \<noteq> [] \<and> socket_open s
      then s\<lparr>taskState := Running, sent := sent s @ [START_TASK (goal s)]\<rparr> else s)
   \<and> (sent (handleSubmit s) \<noteq> sent s \<longleftrightarrow> trim (goal s) \<noteq> [] \<and> socket_open s)"
  by (simp add: handleSubmit_def)

theorem handleSubmit_sends_iff_witness:
  "handleSubmit (initial_state\<lparr>goal := [0x67, 0x6F], wsRef := Some OPEN\<rparr>)
     = initial_state\<lparr>goal := [0x67, 0x6F], wsRef := Some OPEN, taskState := Running,
                      sent := [START_TASK [0x67, 0x6F]]\<rparr>
   \<and> handleSubmit (initial_state\<lparr>goal := [0x20, 0x9], wsRef := Some OPEN\<rparr>)
     = initial_state\<lparr>goal := [0x20, 0x9], wsRef := Some OPEN\<rparr>
   \<and> handleSubmit (initial_state\<lparr>goal := [0x67, 0x6F], wsRef := Some CONNECTING\<rparr>)
     = initial_state\<lparr>goal := [0x67, 0x6F], wsRef := Some CONNECTING\<rparr>"
  using handleSubmit_sends_iff [of "initial_state\<lparr>goal := [0x67, 0x6F], wsRef := Some OPEN\<rparr>"]
    handleSubmit_sends_iff [of "initial_state\<lparr>goal := [0x20, 0x9], wsRef := Some OPEN\<rparr>"]
    handleSubmit_sends_iff
      [of "initial_state\<lparr>goal := [0x67, 0x6F], wsRef := Some CONNECTING\<rparr>"]
  by (simp add: trim_def js_whitespace_def socket_open_def initial_state_def)

text \<open>
  C9. With the socket open, \<^verbatim>\<open>handleCredentialsSubmit\<close> sends exactly one
  \<^verbatim>\<open>CREDENTIALS_PROVIDED\<close> message, carrying the credentials entered; it sets the
  credentials request to \<^verbatim>\<open>null\<close>, so the modal and its only submit button are no longer
  rendered; and it resets username, email and password to the empty string. Nothing else
  changes.
\<close>

theorem credentials_submit_clears:
  assumes "socket_open s"
  shows "handleCredentialsSubmit s =
           s\<lparr>sent := sent s @ [CREDENTIALS_PROVIDED (credentialsData s)],
             credentialsRequest := Some JNull,
             credentialsData := \<lparr>username = [], email = [], password = []\<rparr>\<rparr>
         \<and> \<not> modal_shown (handleCredentialsSubmit s)"
  using assms
  by (simp add: handleCredentialsSubmit_def modal_shown_def empty_credentials_def)

theorem credentials_submit_clears_witness:
  "socket_open
     (initial_state\<lparr>wsRef := Some OPEN, credentialsRequest := Some (JObj [(''password'', JBool True)]),
        credentialsData := \<lparr>username = [], email = [], password = [0x70, 0x77]\<rparr>\<rparr>)
   \<and> modal_shown
     (initial_state\<lparr>wsRef := Some OPEN, credentialsRequest := Some (JObj [(''password'', JBool True)]),
        credentialsData := \<lparr>username = [], email = [], password = [0x70, 0x77]\<rparr>\<rparr>)
   \<and> handleCredentialsSubmit
     (initial_state\<lparr>wsRef := Some OPEN, credentialsRequest := Some (JObj [(''password'', JBool True)]),
        credentialsData := \<lparr>username = [], email = [], password = [0x70, 0x77]\<rparr>\<rparr>)
     = initial_state\<lparr>wsRef := Some OPEN,
         sent := [CREDENTIALS_PROVIDED \<lparr>username = [], email = [], password = [0x70, 0x77]\<rparr>]\<rparr>"
  using credentials_submit_clears
    [of "initial_state\<lparr>wsRef := Some OPEN,
           credentialsRequest := Some (JObj [(''password'', JBool True)]),
           credentialsData := \<lparr>username = [], email = [], password = [0x70, 0x77]\<rparr>\<rparr>"]
  by (simp add: socket_open_def modal_shown_def initial_state_def empty_credentials_def)

section \<open>The step list under the step events\<close>

lemma length_start_step [simp]: "length (start_step i xs) = length xs"
  by (simp add: start_step_def)

lemma length_complete_step [simp]: "length (complete_step i d xs) = length xs"
  by (simp add: complete_step_def)

lemma length_fail_step [simp]: "length (fail_step i d e xs) = length xs"
  by (simp add: fail_step_def)

lemma nth_start_step:
  "k < length xs \<Longrightarrow>
   start_step i xs ! k =
     (xs ! k)\<lparr>status := (if index_is i k then Active
                         else if status (xs ! k) = Active then Pending else status (xs ! k))\<rparr>"
  by (simp add: start_step_def nth_enumerate_eq)

lemma nth_complete_step:
  "k < length xs \<Longrightarrow>
   complete_step i d xs ! k =
     (if index_is i k then (xs ! k)\<lparr>status := Completed, duration_ms := d\<rparr> else xs ! k)"
  by (simp add: complete_step_def nth_enumerate_eq)

lemma nth_fail_step:
  "k < length xs \<Longrightarrow>
   fail_step i d e xs ! k =
     (if index_is i k then (xs ! k)\<lparr>status := Failed, duration_ms := d, error := e\<rparr>
      else xs ! k)"
  by (simp add: fail_step_def nth_enumerate_eq)

lemma index_is_unique: "index_is i j \<Longrightarrow> index_is i k \<Longrightarrow> j = k"
  by (cases "(i, j)" rule: index_is.cases) auto

lemma filter_at_most_one:
  "(\<And>j k. j < length xs \<Longrightarrow> k < length xs \<Longrightarrow> P (xs ! j) \<Longrightarrow> P (xs ! k) \<Longrightarrow> j = k)
   \<Longrightarrow> length (filter P xs) \<le> 1"
proof (induction xs)
  case Nil
  then show ?case by simp
next
  case (Cons x xs)
  have tail: "length (filter P xs) \<le> 1"
  proof (rule Cons.IH)
    fix j k assume "j < length xs" "k < length xs" "P (xs ! j)" "P (xs ! k)"
    then have "Suc j = Suc k" using Cons.prems [of "Suc j" "Suc k"] by simp
    then show "j = k" by simp
  qed
  show ?case
  proof (cases "P x")
    case False
    with tail show ?thesis by simp
  next
    case True
    have "filter P xs = []"
    proof (rule ccontr)
      assume "filter P xs \<noteq> []"
      then obtain y where "y \<in> set xs" "P y"
        by (metis filter_False)
      then obtain k where "k < length xs" "xs ! k = y" by (auto simp: in_set_conv_nth)
      with True \<open>P y\<close> have "0 = Suc k" using Cons.prems [of 0 "Suc k"] by simp
      then show False by simp
    qed
    with True show ?thesis by simp
  qed
qed

lemma filter_length_mono:
  "length xs = length ys \<Longrightarrow> (\<And>k. k < length xs \<Longrightarrow> P (xs ! k) \<Longrightarrow> Q (ys ! k))
   \<Longrightarrow> length (filter P xs) \<le> length (filter Q ys)"
proof (induction xs ys rule: list_induct2)
  case Nil
  then show ?case by simp
next
  case (Cons x xs y ys)
  have tail: "length (filter P xs) \<le> length (filter Q ys)"
  proof (rule Cons.IH)
    fix k assume "k < length xs" "P (xs ! k)"
    then show "Q (ys ! k)" using Cons.prems [of "Suc k"] by simp
  qed
  have "P x \<Longrightarrow> Q y" using Cons.prems [of 0] by simp
  with tail show ?case by auto
qed

lemma active_count_start_step: "active_count (start_step i xs) \<le> 1"
  unfolding active_count_def
proof (rule filter_at_most_one)
  fix j k
  assume "j < length (start_step i xs)" "k < length (start_step i xs)"
    and "status (start_step i xs ! j) = Active" "status (start_step i xs ! k) = Active"
  then have "index_is i j" "index_is i k"
    by (auto simp: nth_start_step split: if_splits)
  then show "j = k" by (rule index_is_unique)
qed

lemma active_count_complete_step: "active_count (complete_step i d xs) \<le> active_count xs"
  unfolding active_count_def
  by (rule filter_length_mono) (auto simp: nth_complete_step split: if_splits)

lemma active_count_fail_step: "active_count (fail_step i d e xs) \<le> active_count xs"
  unfolding active_count_def
  by (rule filter_length_mono) (auto simp: nth_fail_step split: if_splits)

lemma enrich_all_nth:
  "enrich_all nts xs = Inr sts \<Longrightarrow>
   length sts = length xs \<and>
   (\<forall>k < length xs. \<exists>d. buildDescription nts (xs ! k) = Inr d \<and>
      sts ! k = \<lparr>source = xs ! k, status = Pending, description = d,
                  duration_ms = Some JNull, error = js_get (xs ! k) ''error''\<rparr>)"
proof (induction xs arbitrary: sts)
  case Nil
  then show ?case by simp
next
  case (Cons x xs)
  from Cons.prems obtain st rest where
    st: "enrich nts x = Inr st" and rest: "enrich_all nts xs = Inr rest" and sts: "sts = st # rest"
    by (auto split: sum.splits)
  from st obtain d where d: "buildDescription nts x = Inr d"
    and st_eq: "st = \<lparr>source = x, status = Pending, description = d,
                       duration_ms = Some JNull, error = js_get x ''error''\<rparr>"
    by (auto simp: enrich_def split: sum.splits)
  from Cons.IH [OF rest] have len: "length rest = length xs"
    and nth: "\<And>k. k < length xs \<Longrightarrow> \<exists>d. buildDescription nts (xs ! k) = Inr d \<and>
      rest ! k = \<lparr>source = xs ! k, status = Pending, description = d,
                  duration_ms = Some JNull, error = js_get (xs ! k) ''error''\<rparr>"
    by auto
  show ?case
  proof (intro conjI allI impI)
    show "length sts = length (x # xs)" using sts len by simp
  next
    fix k assume "k < length (x # xs)"
    then show "\<exists>d. buildDescription nts ((x # xs) ! k) = Inr d \<and>
      sts ! k = \<lparr>source = (x # xs) ! k, status = Pending, description = d,
                  duration_ms = Some JNull, error = js_get ((x # xs) ! k) ''error''\<rparr>"
      using d st_eq sts nth by (cases k) auto
  qed
qed

lemma enrich_all_pending:
  "enrich_all nts xs = Inr sts \<Longrightarrow> st \<in> set sts \<Longrightarrow> status st = Pending \<and> duration_ms st = Some JNull"
  using enrich_all_nth [of nts xs sts] by (auto simp: in_set_conv_nth)

lemma enrich_all_total:
  "(\<And>x. x \<in> set xs \<Longrightarrow> \<exists>d. buildDescription nts x = Inr d) \<Longrightarrow> \<exists>sts. enrich_all nts xs = Inr sts"
proof (induction xs)
  case Nil
  then show ?case by simp
next
  case (Cons x xs)
  from Cons.prems [of x] obtain d where "buildDescription nts x = Inr d" by auto
  then have "\<exists>st. enrich nts x = Inr st" by (simp add: enrich_def)
  moreover have "\<exists>sts. enrich_all nts xs = Inr sts"
    by (rule Cons.IH) (simp add: Cons.prems)
  ultimately show ?case by auto
qed

lemma active_count_enrich_all: "enrich_all nts xs = Inr sts \<Longrightarrow> active_count sts = 0"
  using enrich_all_pending [of nts xs sts] by (auto simp: active_count_def filter_empty_conv)

lemma steps_after_message:
  "steps (after_message nts s ev) =
     (case ev of
        NotJSON \<Rightarrow> steps s
      | JSON m \<Rightarrow>
          if js_get m ''type'' = Some (JStr ''TASK_STARTED'') then
            (case js_get m ''steps'' of
               Some (JArr xs) \<Rightarrow> (case enrich_all nts xs of Inl e \<Rightarrow> steps s | Inr sts \<Rightarrow> sts)
             | _ \<Rightarrow> steps s)
          else if js_get m ''type'' = Some (JStr ''STEP_STARTED'') then
            start_step (js_get m ''index'') (steps s)
          else if js_get m ''type'' = Some (JStr ''STEP_COMPLETED'') then
            complete_step (js_get m ''index'') (js_get m ''duration_ms'') (steps s)
          else if js_get m ''type'' = Some (JStr ''STEP_FAILED'') then
            fail_step (js_get m ''index'') (js_get m ''duration_ms'') (js_get m ''error'')
              (steps s)
          else steps s)"
proof (cases ev)
  case NotJSON
  then show ?thesis by (simp add: after_message_def ws_onmessage_def)
next
  case (JSON m)
  show ?thesis
  proof (cases "m = JNull")
    case True
    with JSON show ?thesis by (simp add: after_message_def ws_onmessage_def js_get_def)
  next
    case False
    with JSON show ?thesis
      by (simp add: after_message_def ws_onmessage_def Let_def
          split: option.splits json.splits sum.splits)
  qed
qed

lemma active_count_after_message:
  "active_count (steps s) \<le> 1 \<Longrightarrow> active_count (steps (after_message nts s ev)) \<le> 1"
  using active_count_start_step [of "js_get m ''index''" "steps s" for m]
    order_trans [OF active_count_complete_step, of "steps s" 1]
    order_trans [OF active_count_fail_step, of "steps s" 1]
  by (auto simp: steps_after_message active_count_enrich_all
      split: event_data.splits option.splits json.splits sum.splits)

lemma active_count_run:
  "active_count (steps s) \<le> 1 \<Longrightarrow> active_count (steps (run nts s evs)) \<le> 1"
proof (induction evs arbitrary: s)
  case Nil
  then show ?case by simp
next
  case (Cons ev evs)
  from Cons.prems have "active_count (steps (after_message nts s ev)) \<le> 1"
    by (rule active_count_after_message)
  then show ?case using Cons.IH by simp
qed

text \<open>
  C2. Whatever sequence of inbound messages the observer processes from its initial state,
  well-formed or not, at most one step of the resulting list has status active:
  \<^verbatim>\<open>STEP_STARTED\<close> makes the step at the message's index active and turns every other
  active step back to pending, and no other handler makes a step active.
\<close>

theorem at_most_one_active: "active_count (steps (run nts initial_state evs)) \<le> 1"
  by (rule active_count_run) (simp add: initial_state_def active_count_def)

lemmas wire_defs =
  task_started_def step_started_def step_completed_def step_failed_def task_completed_def
  navigate_def click_def type_text_def scroll_def wait_def screenshot_def

theorem at_most_one_active_witness:
  "active_count (steps (run decimal initial_state
      [task_started [navigate ''https://example.com'', click ''#go''],
       step_started 0, step_started 1])) \<le> 1
   \<and> map status (steps (run decimal initial_state
      [task_started [navigate ''https://example.com'', click ''#go''],
       step_started 0, step_started 1])) = [Pending, Active]"
proof -
  have "map status (steps (run decimal initial_state
      [task_started [navigate ''https://example.com'', click ''#go''],
       step_started 0, step_started 1])) = [Pending, Active]"
    by code_simp
  with at_most_one_active [of decimal
      "[task_started [navigate ''https://example.com'', click ''#go''],
        step_started 0, step_started 1]"]
  show ?thesis by simp
qed

section \<open>A new plan\<close>

text \<open>The descriptions of the six actions of the vocabulary, and of a null entry.\<close>

lemma buildDescription_actions:
  "buildDescription nts (navigate url) = Inr (Some (JStr (''Navigate to '' @ url)))"
  "buildDescription nts (click sel) = Inr (Some (JStr (''Click '' @ sel)))"
  "buildDescription nts (type_text sel txt)
     = Inr (Some (JStr (''Type \"'' @ txt @ ''\" in '' @ sel)))"
  "buildDescription nts (scroll None) = Inr (Some (JStr (''Scroll '' @ nts 800 @ ''px'')))"
  "buildDescription nts (scroll (Some (JNum a)))
     = Inr (Some (JStr (''Scroll '' @ nts a @ ''px'')))"
  "buildDescription nts (wait None) = Inr (Some (JStr (''Wait '' @ nts 1000 @ ''ms'')))"
  "buildDescription nts (wait (Some (JNum a)))
     = Inr (Some (JStr (''Wait '' @ nts a @ ''ms'')))"
  "buildDescription nts screenshot = Inr (Some (JStr ''Capture screenshot''))"
  "buildDescription nts JNull = Inr (Some (JStr []))"
  by (simp_all add: buildDescription_def wire_defs js_get_def template_string_def
      then_string_def returned_string_def nullish_coalesce_def)

text \<open>How a template literal prints a scalar.\<close>

lemma template_string_scalar:
  "template_string nts None = Inr ''undefined''"
  "template_string nts (Some JNull) = Inr ''null''"
  "template_string nts (Some (JBool b)) = Inr (if b then ''true'' else ''false'')"
  "template_string nts (Some (JNum r)) = Inr (nts r)"
  "template_string nts (Some (JStr u)) = Inr u"
  by (simp_all add: template_string_def)

lemma template_string_returns:
  "scalar v \<Longrightarrow> \<exists>u. template_string nts v = Inr u"
  by (cases v rule: scalar.cases) (simp_all add: template_string_def)

lemma scalar_nullish_coalesce:
  "scalar a \<Longrightarrow> scalar (nullish_coalesce a (Some (JNum d)))"
  by (cases a rule: nullish.cases) (simp_all add: nullish_coalesce_def)

lemma js_get_truthy: "js_get x k = Some v \<Longrightarrow> truthy (Some x)"
  by (cases x) (simp_all add: js_get_def)

lemma buildDescription_returns:
  assumes "vocabulary_step x"
  shows "\<exists>d. buildDescription nts x = Inr d"
proof -
  from assms obtain a where a: "js_get x ''action'' = Some (JStr a)"
    by (auto simp: vocabulary_step_def)
  then have t: "truthy (Some x)" by (rule js_get_truthy)
  from assms obtain u1 u2 u3 u4 u5 where
    "template_string nts (js_get x ''url'') = Inr u1"
    "template_string nts (js_get x ''selector'') = Inr u2"
    "template_string nts (js_get x ''text'') = Inr u3"
    "template_string nts (nullish_coalesce (js_get x ''amount'') (Some (JNum 800))) = Inr u4"
    "template_string nts (nullish_coalesce (js_get x ''ms'') (Some (JNum 1000))) = Inr u5"
    unfolding vocabulary_step_def
    using template_string_returns [of "js_get x ''url''" nts]
      template_string_returns [of "js_get x ''selector''" nts]
      template_string_returns [of "js_get x ''text''" nts]
      template_string_returns [OF scalar_nullish_coalesce, of "js_get x ''amount''" nts 800]
      template_string_returns [OF scalar_nullish_coalesce, of "js_get x ''ms''" nts 1000]
    by blast
  with t show ?thesis
    by (simp add: buildDescription_def then_string_def returned_string_def)
qed

lemma described_navigate:
  assumes "js_get x ''action'' = Some (JStr ''navigate'')" and "buildDescription nts x = Inr d"
  shows "\<exists>u. template_string nts (js_get x ''url'') = Inr u
             \<and> d = Some (JStr (''Navigate to '' @ u))"
  using assms js_get_truthy [OF assms(1)]
  by (auto simp: buildDescription_def then_string_def returned_string_def split: sum.splits)

lemma described_click:
  assumes "js_get x ''action'' = Some (JStr ''click'')" and "buildDescription nts x = Inr d"
  shows "\<exists>sel. template_string nts (js_get x ''selector'') = Inr sel
             \<and> d = Some (JStr (''Click '' @ sel))"
  using assms js_get_truthy [OF assms(1)]
  by (auto simp: buildDescription_def then_string_def returned_string_def split: sum.splits)

lemma described_type:
  assumes "js_get x ''action'' = Some (JStr ''type'')" and "buildDescription nts x = Inr d"
  shows "\<exists>txt sel. template_string nts (js_get x ''text'') = Inr txt
             \<and> template_string nts (js_get x ''selector'') = Inr sel
             \<and> d = Some (JStr (''Type \"'' @ txt @ ''\" in '' @ sel))"
  using assms js_get_truthy [OF assms(1)]
  by (auto simp: buildDescription_def then_string_def returned_string_def split: sum.splits)

lemma described_scroll:
  assumes "js_get x ''action'' = Some (JStr ''scroll'')" and "buildDescription nts x = Inr d"
  shows "\<exists>a. template_string nts (nullish_coalesce (js_get x ''amount'') (Some (JNum 800)))
               = Inr a
             \<and> d = Some (JStr (''Scroll '' @ a @ ''px''))"
  using assms js_get_truthy [OF assms(1)]
  by (auto simp: buildDescription_def then_string_def returned_string_def split: sum.splits)

lemma described_wait:
  assumes "js_get x ''action'' = Some (JStr ''wait'')" and "buildDescription nts x = Inr d"
  shows "\<exists>a. template_string nts (nullish_coalesce (js_get x ''ms'') (Some (JNum 1000)))
               = Inr a
             \<and> d = Some (JStr (''Wait '' @ a @ ''ms''))"
  using assms js_get_truthy [OF assms(1)]
  by (auto simp: buildDescription_def then_string_def returned_string_def split: sum.splits)

lemma described_screenshot:
  assumes "js_get x ''action'' = Some (JStr ''screenshot'')" and "buildDescription nts x = Inr d"
  shows "d = Some (JStr ''Capture screenshot'')"
  using assms js_get_truthy [OF assms(1)]
  by (auto simp: buildDescription_def then_string_def returned_string_def split: sum.splits)

text \<open>
  C8. A \<^verbatim>\<open>TASK_STARTED\<close> message that carries a steps list, a plan of steps of the
  action vocabulary, is handled without exception and puts the observer in the initial-plan
  state: the step list is replaced by one stored step per plan entry, in order; every
  stored step keeps the entry it was built from, has status pending and \<^verbatim>\<open>duration_ms\<close>
  null; its description is the one \<^verbatim>\<open>buildDescription\<close> derives from its action and
  parameters, namely \<^verbatim>\<open>Navigate to <url>\<close>, \<^verbatim>\<open>Click <selector>\<close>,
  \<^verbatim>\<open>Type "<text>" in <selector>\<close>, \<^verbatim>\<open>Scroll <amount, or 800>px\<close>,
  \<^verbatim>\<open>Wait <ms, or 1000>ms\<close> and \<^verbatim>\<open>Capture screenshot\<close>; no step is active, the active
  index being null; and the task state is running. Everything else in the state is
  untouched.
\<close>

theorem task_started_initial_plan:
  assumes "js_get message ''type'' = Some (JStr ''TASK_STARTED'')"
    and "js_get message ''steps'' = Some (JArr plan)"
    and "list_all vocabulary_step plan"
  shows "\<exists>enriched.
           ws_onmessage nts s (JSON message)
             = (None, s\<lparr>taskState := Running, steps := enriched, activeIndex := Some JNull\<rparr>)
           \<and> length enriched = length plan
           \<and> (\<forall>k < length plan.
                 source (enriched ! k) = plan ! k
                 \<and> status (enriched ! k) = Pending
                 \<and> duration_ms (enriched ! k) = Some JNull
                 \<and> buildDescription nts (plan ! k) = Inr (description (enriched ! k))
                 \<and> (js_get (plan ! k) ''action'' = Some (JStr ''navigate'') \<longrightarrow>
                      (\<exists>u. template_string nts (js_get (plan ! k) ''url'') = Inr u
                         \<and> description (enriched ! k) = Some (JStr (''Navigate to '' @ u))))
                 \<and> (js_get (plan ! k) ''action'' = Some (JStr ''click'') \<longrightarrow>
                      (\<exists>sel. template_string nts (js_get (plan ! k) ''selector'') = Inr sel
                         \<and> description (enriched ! k) = Some (JStr (''Click '' @ sel))))
                 \<and> (js_get (plan ! k) ''action'' = Some (JStr ''type'') \<longrightarrow>
                      (\<exists>txt sel. template_string nts (js_get (plan ! k) ''text'') = Inr txt
                         \<and> template_string nts (js_get (plan ! k) ''selector'') = Inr sel
                         \<and> description (enriched ! k)
                             = Some (JStr (''Type \"'' @ txt @ ''\" in '' @ sel))))
                 \<and> (js_get (plan ! k) ''action'' = Some (JStr ''scroll'') \<longrightarrow>
                      (\<exists>a. template_string nts
                              (nullish_coalesce (js_get (plan ! k) ''amount'') (Some (JNum 800)))
                              = Inr a
                         \<and> description (enriched ! k) = Some (JStr (''Scroll '' @ a @ ''px''))))
                 \<and> (js_get (plan ! k) ''action'' = Some (JStr ''wait'') \<longrightarrow>
                      (\<exists>a. template_string nts
                              (nullish_coalesce (js_get (plan ! k) ''ms'') (Some (JNum 1000)))
                              = Inr a
                         \<and> description (enriched ! k) = Some (JStr (''Wait '' @ a @ ''ms''))))
                 \<and> (js_get (plan ! k) ''action'' = Some (JStr ''screenshot'') \<longrightarrow>
                      description (enriched ! k) = Some (JStr ''Capture screenshot'')))"
proof -
  have "\<exists>d. buildDescription nts x = Inr d" if "x \<in> set plan" for x
    using that assms(3) by (auto simp: list_all_iff intro: buildDescription_returns)
  then obtain enriched where en: "enrich_all nts plan = Inr enriched"
    using enrich_all_total [of plan nts] by blast
  from assms(1) have nonnull: "message \<noteq> JNull" by (auto simp: js_get_def)
  have result: "ws_onmessage nts s (JSON message)
          = (None, s\<lparr>taskState := Running, steps := enriched, activeIndex := Some JNull\<rparr>)"
    using assms(1,2) en nonnull by (simp add: ws_onmessage_def)
  from enrich_all_nth [OF en] have len: "length enriched = length plan"
    and stored: "\<And>k. k < length plan \<Longrightarrow>
           source (enriched ! k) = plan ! k
           \<and> status (enriched ! k) = Pending
           \<and> duration_ms (enriched ! k) = Some JNull
           \<and> buildDescription nts (plan ! k) = Inr (description (enriched ! k))"
    by auto
  have per: "source (enriched ! k) = plan ! k
         \<and> status (enriched ! k) = Pending
         \<and> duration_ms (enriched ! k) = Some JNull
         \<and> buildDescription nts (plan ! k) = Inr (description (enriched ! k))
         \<and> (js_get (plan ! k) ''action'' = Some (JStr ''navigate'') \<longrightarrow>
              (\<exists>u. template_string nts (js_get (plan ! k) ''url'') = Inr u
                 \<and> description (enriched ! k) = Some (JStr (''Navigate to '' @ u))))
         \<and> (js_get (plan ! k) ''action'' = Some (JStr ''click'') \<longrightarrow>
              (\<exists>sel. template_string nts (js_get (plan ! k) ''selector'') = Inr sel
                 \<and> description (enriched ! k) = Some (JStr (''Click '' @ sel))))
         \<and> (js_get (plan ! k) ''action'' = Some (JStr ''type'') \<longrightarrow>
              (\<exists>txt sel. template_string nts (js_get (plan ! k) ''text'') = Inr txt
                 \<and> template_string nts (js_get (plan ! k) ''selector'') = Inr sel
                 \<and> description (enriched ! k)
                     = Some (JStr (''Type \"'' @ txt @ ''\" in '' @ sel))))
         \<and> (js_get (plan ! k) ''action'' = Some (JStr ''scroll'') \<longrightarrow>
              (\<exists>a. template_string nts
                      (nullish_coalesce (js_get (plan ! k) ''amount'') (Some (JNum 800)))
                      = Inr a
                 \<and> description (enriched ! k) = Some (JStr (''Scroll '' @ a @ ''px''))))
         \<and> (js_get (plan ! k) ''action'' = Some (JStr ''wait'') \<longrightarrow>
              (\<exists>a. template_string nts
                      (nullish_coalesce (js_get (plan ! k) ''ms'') (Some (JNum 1000)))
                      = Inr a
                 \<and> description (enriched ! k) = Some (JStr (''Wait '' @ a @ ''ms''))))
         \<and> (js_get (plan ! k) ''action'' = Some (JStr ''screenshot'') \<longrightarrow>
              description (enriched ! k) = Some (JStr ''Capture screenshot''))"
    if k: "k < length plan" for k
  proof -
    from stored [OF k]
    have bd: "buildDescription nts (plan ! k) = Inr (description (enriched ! k))" by simp
    show ?thesis
      using stored [OF k] described_navigate [OF _ bd] described_click [OF _ bd]
        described_type [OF _ bd] described_scroll [OF _ bd] described_wait [OF _ bd]
        described_screenshot [OF _ bd]
      by (intro conjI impI) simp_all
  qed
  show ?thesis
  proof (rule exI [of _ enriched], intro conjI)
    show "ws_onmessage nts s (JSON message)
          = (None, s\<lparr>taskState := Running, steps := enriched, activeIndex := Some JNull\<rparr>)"
      by (rule result)
    show "length enriched = length plan" by (rule len)
  qed (use per in blast)
qed

theorem task_started_initial_plan_witness:
  "js_get (JObj [(''type'', JStr ''TASK_STARTED''),
                 (''steps'', JArr
                    [navigate ''https://example.com'', click ''#go'', type_text ''#q'' ''hi'',
                     scroll None, wait (Some (JNum 250)), screenshot])]) ''type''
     = Some (JStr ''TASK_STARTED'')
   \<and> js_get (JObj [(''type'', JStr ''TASK_STARTED''),
                 (''steps'', JArr
                    [navigate ''https://example.com'', click ''#go'', type_text ''#q'' ''hi'',
                     scroll None, wait (Some (JNum 250)), screenshot])]) ''steps''
     = Some (JArr
        [navigate ''https://example.com'', click ''#go'', type_text ''#q'' ''hi'',
      scroll None, wait (Some (JNum 250)), screenshot])
   \<and> list_all vocabulary_step
        [navigate ''https://example.com'', click ''#go'', type_text ''#q'' ''hi'',
      scroll None, wait (Some (JNum 250)), screenshot]
   \<and> ws_onmessage decimal initial_state
         (JSON (JObj [(''type'', JStr ''TASK_STARTED''),
                 (''steps'', JArr
                    [navigate ''https://example.com'', click ''#go'', type_text ''#q'' ''hi'',
                     scroll None, wait (Some (JNum 250)), screenshot])]))
     = (None, initial_state\<lparr>taskState := Running,
          steps := [\<lparr>source = navigate ''https://example.com'', status = Pending,
                      description = Some (JStr ''Navigate to https://example.com''),
                      duration_ms = Some JNull, error = None\<rparr>,
                    \<lparr>source = click ''#go'', status = Pending,
                      description = Some (JStr ''Click #go''),
                      duration_ms = Some JNull, error = None\<rparr>,
                    \<lparr>source = type_text ''#q'' ''hi'', status = Pending,
                      description = Some (JStr (''Type '' @ [CHR 0x22] @ ''hi'' @ [CHR 0x22] @ '' in #q'')),
                      duration_ms = Some JNull, error = None\<rparr>,
                    \<lparr>source = scroll None, status = Pending,
                      description = Some (JStr ''Scroll 800px''),
                      duration_ms = Some JNull, error = None\<rparr>,
                    \<lparr>source = wait (Some (JNum 250)), status = Pending,
                      description = Some (JStr ''Wait 250ms''),
                      duration_ms = Some JNull, error = None\<rparr>,
                    \<lparr>source = screenshot, status = Pending,
                      description = Some (JStr ''Capture screenshot''),
                      duration_ms = Some JNull, error = None\<rparr>],
          activeIndex := Some JNull\<rparr>)"
proof -
  let ?plan = "[navigate ''https://example.com'', click ''#go'', type_text ''#q'' ''hi'',
      scroll None, wait (Some (JNum 250)), screenshot]"
  let ?m = "JObj [(''type'', JStr ''TASK_STARTED''), (''steps'', JArr ?plan)]"
  have h1: "js_get ?m ''type'' = Some (JStr ''TASK_STARTED'')"
    by (simp add: js_get_def)
  have h2: "js_get ?m ''steps'' = Some (JArr ?plan)"
    by (simp add: js_get_def)
  have h3: "list_all vocabulary_step ?plan"
    by code_simp
  have concrete: "ws_onmessage decimal initial_state (JSON ?m)
     = (None, initial_state\<lparr>taskState := Running,
          steps := [\<lparr>source = navigate ''https://example.com'', status = Pending,
                      description = Some (JStr ''Navigate to https://example.com''),
                      duration_ms = Some JNull, error = None\<rparr>,
                    \<lparr>source = click ''#go'', status = Pending,
                      description = Some (JStr ''Click #go''),
                      duration_ms = Some JNull, error = None\<rparr>,
                    \<lparr>source = type_text ''#q'' ''hi'', status = Pending,
                      description = Some (JStr (''Type '' @ [CHR 0x22] @ ''hi'' @ [CHR 0x22] @ '' in #q'')),
                      duration_ms = Some JNull, error = None\<rparr>,
                    \<lparr>source = scroll None, status = Pending,
                      description = Some (JStr ''Scroll 800px''),
                      duration_ms = Some JNull, error = None\<rparr>,
                    \<lparr>source = wait (Some (JNum 250)), status = Pending,
                      description = Some (JStr ''Wait 250ms''),
                      duration_ms = Some JNull, error = None\<rparr>,
                    \<lparr>source = screenshot, status = Pending,
                      description = Some (JStr ''Capture screenshot''),
                      duration_ms = Some JNull, error = None\<rparr>],
          activeIndex := Some JNull\<rparr>)"
    by code_simp
  from task_started_initial_plan [OF h1 h2 h3, of decimal initial_state]
  have "\<exists>enriched. ws_onmessage decimal initial_state (JSON ?m)
          = (None, initial_state\<lparr>taskState := Running, steps := enriched,
                                  activeIndex := Some JNull\<rparr>)"
    by blast
  with h1 h2 h3 concrete show ?thesis by blast
qed

text \<open>
  The vocabulary matters. A parameter that is an object with an own \<^verbatim>\<open>toString\<close> member,
  as in \<^verbatim>\<open>{"action": "navigate", "url": {"toString": null}}\<close>, is no scalar and cannot be
  converted by the template literal: \<^verbatim>\<open>buildDescription\<close> throws a TypeError inside
  \<^verbatim>\<open>map\<close>, after the task state has been set to running and before the step list and the
  active index are replaced.
\<close>

lemma unconvertible_parameter_throws:
  "ws_onmessage decimal
     (run decimal initial_state [task_started [navigate ''https://example.com''], step_started 0])
     (task_started [JObj [(''action'', JStr ''navigate''),
                          (''url'', JObj [(''toString'', JNull)])]])
   = (Some TypeError,
      (run decimal initial_state [task_started [navigate ''https://example.com''], step_started 0])
        \<lparr>taskState := Running\<rparr>)
   \<and> map status (steps (after_message decimal
         (run decimal initial_state
            [task_started [navigate ''https://example.com''], step_started 0])
         (task_started [JObj [(''action'', JStr ''navigate''),
                              (''url'', JObj [(''toString'', JNull)])]]))) = [Active]
   \<and> activeIndex (after_message decimal
         (run decimal initial_state
            [task_started [navigate ''https://example.com''], step_started 0])
         (task_started [JObj [(''action'', JStr ''navigate''),
                              (''url'', JObj [(''toString'', JNull)])]])) = Some (JNum 0)"
  by code_simp

section \<open>The task state\<close>

text \<open>
  C3, as the code has it. The observer's task state is one of idle, running and completed;
  there is no planning or failed state. A \<^verbatim>\<open>TASK_STARTED\<close> message sets it to running and
  a \<^verbatim>\<open>TASK_COMPLETED\<close> message sets it to completed, each from any state; a submit that is
  accepted (goal not blank, socket open) sets it to running from any state; every other
  message, a rejected submit and the credentials submit leave it as it is. So nothing
  returns it to idle, and a completed task state is left only by the start of a new task.
\<close>

theorem task_state_transitions:
  "taskState (after_message nts s ev) =
     (case ev of
        NotJSON \<Rightarrow> taskState s
      | JSON m \<Rightarrow>
          if js_get m ''type'' = Some (JStr ''TASK_STARTED'') then Running
          else if js_get m ''type'' = Some (JStr ''TASK_COMPLETED'') then TaskCompleted
          else taskState s)
   \<and> taskState (handleSubmit s)
       = (if trim (goal s) \<noteq> [] \<and> socket_open s then Running else taskState s)
   \<and> taskState (handleCredentialsSubmit s) = taskState s"
proof (intro conjI)
  show "taskState (after_message nts s ev) =
     (case ev of
        NotJSON \<Rightarrow> taskState s
      | JSON m \<Rightarrow>
          if js_get m ''type'' = Some (JStr ''TASK_STARTED'') then Running
          else if js_get m ''type'' = Some (JStr ''TASK_COMPLETED'') then TaskCompleted
          else taskState s)"
  proof (cases ev)
    case NotJSON
    then show ?thesis by (simp add: after_message_def ws_onmessage_def)
  next
    case (JSON m)
    show ?thesis
    proof (cases "m = JNull")
      case True
      with JSON show ?thesis by (simp add: after_message_def ws_onmessage_def js_get_def)
    next
      case False
      with JSON show ?thesis
        by (simp add: after_message_def ws_onmessage_def Let_def
            split: option.splits json.splits sum.splits)
    qed
  qed
next
  show "taskState (handleSubmit s)
       = (if trim (goal s) \<noteq> [] \<and> socket_open s then Running else taskState s)"
    by (simp add: handleSubmit_def)
next
  show "taskState (handleCredentialsSubmit s) = taskState s"
    by (simp add: handleCredentialsSubmit_def)
qed

theorem task_state_transitions_witness:
  "taskState (after_message decimal initial_state (task_started [navigate ''https://example.com'']))
     = Running
   \<and> taskState (after_message decimal (initial_state\<lparr>taskState := Running\<rparr>) task_completed)
     = TaskCompleted
   \<and> taskState (after_message decimal (initial_state\<lparr>taskState := TaskCompleted\<rparr>)
        (step_started 0)) = TaskCompleted
   \<and> taskState (handleSubmit (initial_state\<lparr>goal := [0x67, 0x6F], wsRef := Some OPEN\<rparr>))
     = Running
   \<and> taskState (handleCredentialsSubmit (initial_state\<lparr>wsRef := Some OPEN\<rparr>)) = Idle"
  using task_state_transitions
      [of decimal initial_state "task_started [navigate ''https://example.com'']"]
    task_state_transitions [of decimal "initial_state\<lparr>taskState := Running\<rparr>" task_completed]
    task_state_transitions
      [of decimal "initial_state\<lparr>taskState := TaskCompleted\<rparr>" "step_started 0"]
    task_state_transitions
      [of _ "initial_state\<lparr>goal := [0x67, 0x6F], wsRef := Some OPEN\<rparr>"]
    task_state_transitions [of _ "initial_state\<lparr>wsRef := Some OPEN\<rparr>"]
  by (simp add: wire_defs js_get_def trim_def js_whitespace_def socket_open_def
      initial_state_def)

text \<open>
  C3 as stated fails: after a run has completed, the \<^verbatim>\<open>TASK_STARTED\<close> of the next task, or
  the submit that asks for it, takes the task state from completed back to running.
\<close>

theorem task_state_leaves_completed_counterexample:
  "taskState (run decimal initial_state
      [task_started [navigate ''https://example.com''], step_started 0, step_completed 0 12,
       task_completed]) = TaskCompleted
   \<and> taskState (run decimal initial_state
      [task_started [navigate ''https://example.com''], step_started 0, step_completed 0 12,
       task_completed, task_started [click ''#next'']]) = Running
   \<and> taskState (handleSubmit
       ((run decimal initial_state
          [task_started [navigate ''https://example.com''], step_started 0,
           step_completed 0 12, task_completed])
        \<lparr>goal := [0x67, 0x6F], wsRef := Some OPEN\<rparr>)) = Running"
  by code_simp

section \<open>Step statuses under one message\<close>

lemma list_all_enumerate:
  "list_all (\<lambda>(k, x). P k x) (enumerate 0 xs) \<longleftrightarrow> (\<forall>k < length xs. P k (xs ! k))"
  by (auto simp: list_all_length nth_enumerate_eq)

lemma length_steps_after_message:
  "js_get m ''type'' \<noteq> Some (JStr ''TASK_STARTED'') \<Longrightarrow>
   length (steps (after_message nts s (JSON m))) = length (steps s)"
  by (simp add: steps_after_message)

lemma status_after_message:
  assumes "js_get m ''type'' \<noteq> Some (JStr ''TASK_STARTED'')" and "k < length (steps s)"
  shows "status (steps (after_message nts s (JSON m)) ! k) =
     (if js_get m ''type'' = Some (JStr ''STEP_STARTED'') then
        (if index_is (js_get m ''index'') k then Active
         else if status (steps s ! k) = Active then Pending else status (steps s ! k))
      else if js_get m ''type'' = Some (JStr ''STEP_COMPLETED'') then
        (if index_is (js_get m ''index'') k then Completed else status (steps s ! k))
      else if js_get m ''type'' = Some (JStr ''STEP_FAILED'') then
        (if index_is (js_get m ''index'') k then Failed else status (steps s ! k))
      else status (steps s ! k))"
  using assms
  by (simp add: steps_after_message nth_start_step nth_complete_step nth_fail_step)

text \<open>
  C1, as the code has it. For an inbound message other than \<^verbatim>\<open>TASK_STARTED\<close> (which
  replaces the plan) the step list keeps its length, and no step's status goes back
  (active to pending, completed to active or pending, failed to anything else) if and only
  if the message is a step event in order: a \<^verbatim>\<open>STEP_STARTED\<close> that names no completed or
  failed step while no other step is active, a \<^verbatim>\<open>STEP_COMPLETED\<close> that names no failed
  step, or any other message. The handler applies a step event as it comes.
\<close>

theorem step_status_never_reverts:
  assumes "js_get m ''type'' \<noteq> Some (JStr ''TASK_STARTED'')"
  shows "length (steps (after_message nts s (JSON m))) = length (steps s)
         \<and> ((\<forall>k < length (steps s).
                \<not> reverts (status (steps s ! k))
                    (status (steps (after_message nts s (JSON m)) ! k)))
            \<longleftrightarrow> step_event_in_order s m)"
proof
  show "length (steps (after_message nts s (JSON m))) = length (steps s)"
    using assms by (rule length_steps_after_message)
next
  let ?new = "\<lambda>k. status (steps (after_message nts s (JSON m)) ! k)"
  let ?old = "\<lambda>k. status (steps s ! k)"
  consider (started) "js_get m ''type'' = Some (JStr ''STEP_STARTED'')"
    | (completed) "js_get m ''type'' = Some (JStr ''STEP_COMPLETED'')"
    | (other) "js_get m ''type'' \<noteq> Some (JStr ''STEP_STARTED'')"
        "js_get m ''type'' \<noteq> Some (JStr ''STEP_COMPLETED'')"
    by blast
  then show "(\<forall>k < length (steps s). \<not> reverts (?old k) (?new k)) \<longleftrightarrow> step_event_in_order s m"
  proof cases
    case started
    have "\<not> reverts (?old k) (?new k) \<longleftrightarrow>
            (if index_is (js_get m ''index'') k
             then ?old k \<noteq> Completed \<and> ?old k \<noteq> Failed else ?old k \<noteq> Active)"
      if "k < length (steps s)" for k
      using that started assms
      by (cases "?old k") (simp_all add: status_after_message reverts_def)
    then show ?thesis
      using started by (simp add: step_event_in_order_def list_all_enumerate)
  next
    case completed
    have "\<not> reverts (?old k) (?new k) \<longleftrightarrow>
            \<not> (index_is (js_get m ''index'') k \<and> ?old k = Failed)"
      if "k < length (steps s)" for k
      using that completed assms
      by (cases "?old k") (simp_all add: status_after_message reverts_def)
    then show ?thesis
      using completed by (simp add: step_event_in_order_def list_all_enumerate)
  next
    case other
    have "\<not> reverts (?old k) (?new k)" if "k < length (steps s)" for k
      using that other assms
      by (cases "?old k") (simp_all add: status_after_message reverts_def)
    then show ?thesis
      using other by (simp add: step_event_in_order_def)
  qed
qed

theorem step_status_never_reverts_witness:
  "js_get (JObj [(''type'', JStr ''STEP_COMPLETED''), (''index'', JNum 0),
                 (''duration_ms'', JNum 12)]) ''type'' \<noteq> Some (JStr ''TASK_STARTED'')
   \<and> step_event_in_order
        (run decimal initial_state
           [task_started [navigate ''https://example.com'', click ''#go''], step_started 0])
        (JObj [(''type'', JStr ''STEP_COMPLETED''), (''index'', JNum 0),
               (''duration_ms'', JNum 12)])
   \<and> map status (steps (run decimal initial_state
           [task_started [navigate ''https://example.com'', click ''#go''], step_started 0]))
       = [Active, Pending]
   \<and> map status (steps (after_message decimal
         (run decimal initial_state
            [task_started [navigate ''https://example.com'', click ''#go''], step_started 0])
         (JSON (JObj [(''type'', JStr ''STEP_COMPLETED''), (''index'', JNum 0),
                      (''duration_ms'', JNum 12)]))))
       = [Completed, Pending]
   \<and> \<not> reverts
         (status (steps (run decimal initial_state
            [task_started [navigate ''https://example.com'', click ''#go''], step_started 0])
            ! 0))
         (status (steps (after_message decimal
            (run decimal initial_state
               [task_started [navigate ''https://example.com'', click ''#go''],
                step_started 0])
            (JSON (JObj [(''type'', JStr ''STEP_COMPLETED''), (''index'', JNum 0),
                         (''duration_ms'', JNum 12)]))) ! 0))"
proof -
  let ?s = "run decimal initial_state
              [task_started [navigate ''https://example.com'', click ''#go''], step_started 0]"
  let ?m = "JObj [(''type'', JStr ''STEP_COMPLETED''), (''index'', JNum 0),
                  (''duration_ms'', JNum 12)]"
  have h: "js_get ?m ''type'' \<noteq> Some (JStr ''TASK_STARTED'')"
    by (simp add: js_get_def)
  have ordered: "step_event_in_order ?s ?m"
    by code_simp
  have before: "map status (steps ?s) = [Active, Pending]"
    by code_simp
  have after: "map status (steps (after_message decimal ?s (JSON ?m))) = [Completed, Pending]"
    by code_simp
  from before have len: "0 < length (steps ?s)"
    by (metis length_greater_0_conv list.simps(3) map_is_Nil_conv)
  from step_status_never_reverts [OF h, of decimal ?s] ordered len
  have "\<not> reverts (status (steps ?s ! 0))
            (status (steps (after_message decimal ?s (JSON ?m)) ! 0))"
    by blast
  with h ordered before after show ?thesis by blast
qed

text \<open>
  C1 as stated fails. With step 0 active, a \<^verbatim>\<open>STEP_STARTED\<close> for step 1 turns step 0 from
  active back to pending; and a \<^verbatim>\<open>STEP_STARTED\<close> that names a completed step makes it
  active again.
\<close>

theorem step_status_reverts_counterexample:
  "map status (steps (run decimal initial_state
      [task_started [navigate ''https://example.com'', click ''#go''], step_started 0]))
     = [Active, Pending]
   \<and> map status (steps (run decimal initial_state
      [task_started [navigate ''https://example.com'', click ''#go''], step_started 0,
       step_started 1]))
     = [Pending, Active]
   \<and> reverts Active Pending
   \<and> map status (steps (run decimal initial_state
      [task_started [navigate ''https://example.com'', click ''#go''], step_started 0,
       step_completed 0 12]))
     = [Completed, Pending]
   \<and> map status (steps (run decimal initial_state
      [task_started [navigate ''https://example.com'', click ''#go''], step_started 0,
       step_completed 0 12, step_started 0]))
     = [Active, Pending]
   \<and> reverts Completed Active"
  by code_simp

section \<open>Rounding to double precision\<close>

lemma binade_bounds:
  assumes "0 < x"
  shows "2 powi (binade x) \<le> x" and "x < 2 powi (binade x + 1)"
proof -
  obtain p q where pq: "quotient_of x = (p, q)" by (cases "quotient_of x")
  then have qpos: "0 < q" by (rule quotient_of_denom_pos)
  from pq have x: "x = of_int p / of_int q" by (rule quotient_of_div)
  with assms qpos have ppos: "0 < p" by (simp add: zero_less_divide_iff)
  define a where "a = floorlog 2 (nat p)"
  define b where "b = floorlog 2 (nat q)"
  have apos: "0 < a" and bpos: "0 < b"
    using ppos qpos by (simp_all add: a_def b_def floorlog_def)
  have "2 ^ (a - 1) \<le> nat p" "nat p < 2 ^ a"
    using floorlog_bounds [of "nat p" 2] ppos by (simp_all add: a_def)
  then have p_lo: "(2::rat) ^ (a - 1) \<le> of_int p" and p_hi: "of_int p < (2::rat) ^ a"
    using ppos by simp_all
  have "2 ^ (b - 1) \<le> nat q" "nat q < 2 ^ b"
    using floorlog_bounds [of "nat q" 2] qpos by (simp_all add: b_def)
  then have q_lo: "(2::rat) ^ (b - 1) \<le> of_int q" and q_hi: "of_int q < (2::rat) ^ b"
    using qpos by simp_all
  have bd: "binade x = (if 2 powi (int a - int b) \<le> x then int a - int b else int a - int b - 1)"
    by (simp add: binade_def pq a_def b_def bitlen_def Let_def)
  have lo_pow: "(2::rat) powi (int a - int b - 1) = 2 ^ (a - 1) / 2 ^ b"
  proof -
    have e: "int a - int b - 1 = int (a - 1) - int b" using apos by linarith
    have "(2::rat) powi (int (a - 1) - int b) = 2 powi int (a - 1) / 2 powi int b"
      by (rule power_int_diff) simp
    then show ?thesis by (simp only: e power_int_of_nat)
  qed
  have hi_pow: "(2::rat) powi (int a - int b + 1) = 2 ^ a / 2 ^ (b - 1)"
  proof -
    have e: "int a - int b + 1 = int a - int (b - 1)" using bpos by linarith
    have "(2::rat) powi (int a - int (b - 1)) = 2 powi int a / 2 powi int (b - 1)"
      by (rule power_int_diff) simp
    then show ?thesis by (simp only: e power_int_of_nat)
  qed
  have qr: "(0::rat) < of_int q" using qpos by simp
  have lower: "(2::rat) ^ (a - 1) / 2 ^ b \<le> x"
  proof -
    have "(2::rat) ^ (a - 1) / 2 ^ b \<le> of_int p / 2 ^ b"
      using p_lo by (simp add: divide_right_mono)
    also have "\<dots> \<le> of_int p / of_int q"
      using q_hi qr ppos by (simp add: frac_le)
    finally show ?thesis by (simp add: x)
  qed
  have upper: "x < (2::rat) ^ a / 2 ^ (b - 1)"
  proof -
    have "of_int p / of_int q < (2::rat) ^ a / of_int q"
      using p_hi qr by (simp add: divide_strict_right_mono)
    also have "\<dots> \<le> 2 ^ a / 2 ^ (b - 1)"
      using q_lo by (simp add: frac_le)
    finally show ?thesis by (simp add: x)
  qed
  show "2 powi (binade x) \<le> x"
    using bd lower lo_pow by (simp split: if_splits)
  show "x < 2 powi (binade x + 1)"
    using bd upper hi_pow by (auto split: if_splits)
qed

lemma round_half_even_error: "\<bar>of_int (round_half_even m) - m\<bar> \<le> 1 / 2"
proof -
  have "of_int \<lfloor>m\<rfloor> \<le> m" "m < of_int \<lfloor>m\<rfloor> + 1" by linarith+
  then show ?thesis
    by (auto simp: round_half_even_def Let_def)
qed

lemma round_double_error:
  assumes "0 < x"
  shows "\<bar>round_double x - x\<bar> \<le> 2 powi (binade x - 53)"
proof -
  define ulp :: rat where "ulp = 2 powi (binade x - 52)"
  define k where "k = round_half_even (x / ulp)"
  have ulp_pos: "0 < ulp" by (simp add: ulp_def)
  have rd: "round_double x = of_int k * ulp"
    using assms by (simp add: round_double_def ulp_def k_def Let_def)
  have "\<bar>of_int k * ulp - x\<bar> = \<bar>of_int k - x / ulp\<bar> * ulp"
  proof -
    have "of_int k * ulp - x = (of_int k - x / ulp) * ulp"
      using ulp_pos by (simp add: field_simps)
    then show ?thesis using ulp_pos by (simp add: abs_mult)
  qed
  also have "\<dots> \<le> 1 / 2 * ulp"
    using round_half_even_error [of "x / ulp"] ulp_pos
    by (intro mult_right_mono) (simp_all add: k_def)
  also have "1 / 2 * ulp = 2 powi (binade x - 53)"
  proof -
    have "(2::rat) powi (binade x - 52) = 2 powi (binade x - 53 + 1)" by simp
    also have "\<dots> = 2 powi (binade x - 53) * 2"
      by (subst power_int_add) simp_all
    finally show ?thesis by (simp add: ulp_def)
  qed
  finally show ?thesis by (simp add: rd)
qed

lemma round_double_pos:
  assumes "0 < x"
  shows "0 < round_double x"
proof -
  have "(2::rat) powi (binade x - 53) < 2 powi (binade x)"
    by (rule power_int_strict_increasing) simp_all
  also have "\<dots> \<le> x" using assms by (rule binade_bounds)
  finally have "2 powi (binade x - 53) < x" .
  with round_double_error [OF assms] show ?thesis by linarith
qed

lemma round_double_error_below:
  assumes "0 < x" and "x < 2 powi e"
  shows "\<bar>round_double x - x\<bar> \<le> 2 powi (e - 54)"
proof -
  have "(2::rat) powi (binade x) < 2 powi e"
    using binade_bounds(1) [OF assms(1)] assms(2) by linarith
  have "binade x < e"
  proof (rule ccontr)
    assume "\<not> binade x < e"
    then have "e \<le> binade x" by simp
    then have "(2::rat) powi e \<le> 2 powi (binade x)"
      by (intro power_int_increasing) simp_all
    with \<open>(2::rat) powi (binade x) < 2 powi e\<close> show False by simp
  qed
  then have "binade x - 53 \<le> e - 54" by simp
  then have "(2::rat) powi (binade x - 53) \<le> 2 powi (e - 54)"
    by (intro power_int_increasing) simp_all
  with round_double_error [OF assms(1)] show ?thesis by linarith
qed

lemma round_half_even_mono:
  assumes "a \<le> b"
  shows "round_half_even a \<le> round_half_even b"
proof (cases "a = b")
  case True
  then show ?thesis by simp
next
  case False
  with assms have "a < b" by simp
  have "of_int (round_half_even a) - a \<le> \<bar>of_int (round_half_even a) - a\<bar>"
    by (rule abs_ge_self)
  also have "\<dots> \<le> 1 / 2" by (rule round_half_even_error)
  finally have up: "of_int (round_half_even a) - a \<le> 1 / 2" .
  have "b - of_int (round_half_even b) \<le> \<bar>b - of_int (round_half_even b)\<bar>"
    by (rule abs_ge_self)
  also have "\<dots> = \<bar>of_int (round_half_even b) - b\<bar>" by (rule abs_minus_commute)
  also have "\<dots> \<le> 1 / 2" by (rule round_half_even_error)
  finally have down: "b - of_int (round_half_even b) \<le> 1 / 2" .
  note up down
  with \<open>a < b\<close> have "(of_int (round_half_even a) :: rat) < of_int (round_half_even b) + 1"
    by linarith
  then have "(of_int (round_half_even a) :: rat) < of_int (round_half_even b + 1)"
    by simp
  then have "round_half_even a < round_half_even b + 1"
    by (simp only: of_int_less_iff)
  then show ?thesis by simp
qed

lemma binade_mono:
  assumes "0 < x" and "x \<le> y"
  shows "binade x \<le> binade y"
proof (rule ccontr)
  assume "\<not> binade x \<le> binade y"
  then have "binade y + 1 \<le> binade x" by simp
  then have "(2::rat) powi (binade y + 1) \<le> 2 powi (binade x)"
    by (intro power_int_increasing) simp_all
  also have "\<dots> \<le> x" using assms(1) by (rule binade_bounds)
  also have "\<dots> \<le> y" by (rule assms(2))
  also have "\<dots> < 2 powi (binade y + 1)"
    using assms by (intro binade_bounds) simp
  finally show False by simp
qed

lemma power_int_ulp:
  "(2::rat) powi e = 2 ^ 52 * 2 powi (e - 52)"
  "(2::rat) powi (e + 1) = 2 ^ 53 * 2 powi (e - 52)"
  using power_int_add [of "2::rat" 52 "e - 52"] power_int_add [of "2::rat" 53 "e - 52"]
  by (simp_all add: add.commute)

lemma round_double_significand:
  assumes "0 < x"
  shows "round_double x = of_int (round_half_even (x / 2 powi (binade x - 52))) * 2 powi (binade x - 52)"
    and "2 ^ 52 \<le> round_half_even (x / 2 powi (binade x - 52))"
    and "round_half_even (x / 2 powi (binade x - 52)) \<le> 2 ^ 53"
proof -
  define ulp :: rat where "ulp = 2 powi (binade x - 52)"
  define m where "m = x / ulp"
  have ulp_pos: "0 < ulp" by (simp add: ulp_def)
  show "round_double x = of_int (round_half_even (x / 2 powi (binade x - 52))) * 2 powi (binade x - 52)"
    using assms by (simp add: round_double_def Let_def)
  have split_lo: "(2::rat) powi (binade x) = 2 ^ 52 * ulp"
    unfolding ulp_def by (rule power_int_ulp)
  have split_hi: "(2::rat) powi (binade x + 1) = 2 ^ 53 * ulp"
    unfolding ulp_def by (rule power_int_ulp)
  have "2 ^ 52 * ulp \<le> x" "x < 2 ^ 53 * ulp"
    using binade_bounds [OF assms] by (simp_all only: split_lo split_hi)
  then have m: "2 ^ 52 \<le> m" "m < 2 ^ 53"
    using ulp_pos by (simp_all add: m_def pos_le_divide_eq pos_divide_less_eq)
  have r52: "round_half_even (2 ^ 52) = 2 ^ 52" and r53: "round_half_even (2 ^ 53) = 2 ^ 53"
    by (simp_all add: round_half_even_def)
  from m(1) have "round_half_even (2 ^ 52) \<le> round_half_even m" by (rule round_half_even_mono)
  then show "2 ^ 52 \<le> round_half_even (x / 2 powi (binade x - 52))"
    by (simp only: r52 m_def ulp_def)
  from m(2) have "round_half_even m \<le> round_half_even (2 ^ 53)"
    by (intro round_half_even_mono) simp
  then show "round_half_even (x / 2 powi (binade x - 52)) \<le> 2 ^ 53"
    by (simp only: r53 m_def ulp_def)
qed

lemma round_double_between:
  assumes "0 < x"
  shows "2 powi (binade x) \<le> round_double x" and "round_double x \<le> 2 powi (binade x + 1)"
proof -
  define ulp :: rat where "ulp = 2 powi (binade x - 52)"
  define k where "k = round_half_even (x / 2 powi (binade x - 52))"
  have ulp_pos: "0 < ulp" by (simp add: ulp_def)
  from round_double_significand [OF assms]
  have rd: "round_double x = of_int k * ulp" and k: "2 ^ 52 \<le> k" "k \<le> 2 ^ 53"
    by (simp_all add: k_def ulp_def)
  have lo: "(2::rat) powi (binade x) = 2 ^ 52 * ulp"
    unfolding ulp_def by (rule power_int_ulp)
  have hi: "(2::rat) powi (binade x + 1) = 2 ^ 53 * ulp"
    unfolding ulp_def by (rule power_int_ulp)
  have "(of_int (2 ^ 52) :: rat) \<le> of_int k" "(of_int k :: rat) \<le> of_int (2 ^ 53)"
    using k by (simp_all only: of_int_le_iff)
  then have "(2::rat) ^ 52 \<le> of_int k" "(of_int k :: rat) \<le> 2 ^ 53"
    by simp_all
  then have "2 ^ 52 * ulp \<le> of_int k * ulp" "of_int k * ulp \<le> 2 ^ 53 * ulp"
    using ulp_pos by (simp_all add: mult_right_mono)
  then show "2 powi (binade x) \<le> round_double x" "round_double x \<le> 2 powi (binade x + 1)"
    by (simp_all only: rd lo hi)
qed

lemma round_double_mono:
  assumes "0 < x" and "x \<le> y"
  shows "round_double x \<le> round_double y"
proof -
  from assms have ypos: "0 < y" by simp
  from binade_mono [OF assms] consider (same) "binade x = binade y" | (less) "binade x < binade y"
    by linarith
  then show ?thesis
  proof cases
    case same
    define ulp :: rat where "ulp = 2 powi (binade y - 52)"
    have ulp_pos: "0 < ulp" by (simp add: ulp_def)
    have "x / ulp \<le> y / ulp" using assms(2) ulp_pos by (simp add: divide_right_mono)
    then have "round_half_even (x / ulp) \<le> round_half_even (y / ulp)"
      by (rule round_half_even_mono)
    then have "(of_int (round_half_even (x / ulp)) :: rat) \<le> of_int (round_half_even (y / ulp))"
      by (simp only: of_int_le_iff)
    then have "of_int (round_half_even (x / ulp)) * ulp \<le> of_int (round_half_even (y / ulp)) * ulp"
      using ulp_pos by (simp add: mult_right_mono)
    then show ?thesis
      using round_double_significand(1) [OF assms(1)] round_double_significand(1) [OF ypos]
      by (simp add: same ulp_def)
  next
    case less
    then have "binade x + 1 \<le> binade y" by simp
    then have "(2::rat) powi (binade x + 1) \<le> 2 powi (binade y)"
      by (intro power_int_increasing) simp_all
    with round_double_between(2) [OF assms(1)] round_double_between(1) [OF ypos]
    show ?thesis by linarith
  qed
qed

lemma percent_mono:
  assumes "0 < n" and "c \<le> c'"
  shows "percent c n \<le> percent c' n"
proof (cases "c = 0")
  case True
  have "0 \<le> round_double (round_double (of_nat c' / of_nat n) * 100)"
  proof (cases "c' = 0")
    case True
    then show ?thesis by (simp add: round_double_def)
  next
    case False
    with assms(1) have "0 < (of_nat c' :: rat) / of_nat n" by simp
    then have "0 < round_double (of_nat c' / of_nat n) * 100"
      using round_double_pos by simp
    then have "0 < round_double (round_double (of_nat c' / of_nat n) * 100)"
      by (rule round_double_pos)
    then show ?thesis by simp
  qed
  then have "\<lfloor>(0::rat) + 1 / 2\<rfloor>
               \<le> \<lfloor>round_double (round_double (of_nat c' / of_nat n) * 100) + 1 / 2\<rfloor>"
    by (intro floor_mono) simp
  with True show ?thesis by (simp add: percent_def Math_round_def round_double_def)
next
  case False
  with assms(1) have pos: "0 < (of_nat c :: rat) / of_nat n" by simp
  have "(of_nat c :: rat) / of_nat n \<le> of_nat c' / of_nat n"
    using assms by (simp add: divide_right_mono)
  with pos have "round_double (of_nat c / of_nat n) \<le> round_double (of_nat c' / of_nat n)"
    by (rule round_double_mono)
  then have le: "round_double (of_nat c / of_nat n) * 100 \<le> round_double (of_nat c' / of_nat n) * 100"
    by simp
  have "0 < round_double (of_nat c / of_nat n) * 100"
    using round_double_pos [OF pos] by simp
  from round_double_mono [OF this le]
  show ?thesis unfolding percent_def Math_round_def by (intro floor_mono) simp
qed

section \<open>The displayed percentage\<close>

lemma completed_count_le_length: "completed_count xs \<le> length xs"
  by (simp add: completed_count_def)

lemma percent_error:
  assumes "0 < c" and "c \<le> n"
  shows "\<bar>round_double (round_double (of_nat c / of_nat n) * 100) - 100 * of_nat c / of_nat n\<bar>
           \<le> 164 / 2 ^ 53"
proof -
  define x :: rat where "x = of_nat c / of_nat n"
  define q where "q = round_double x"
  define y where "y = round_double (q * 100)"
  from assms have npos: "0 < n" by simp
  have xpos: "0 < x" using assms npos by (simp add: x_def)
  have xle: "x \<le> 1" using assms npos by (simp add: x_def)
  have "x < 2 powi 1" using xle by simp
  from round_double_error_below [OF xpos this]
  have e1: "\<bar>q - x\<bar> \<le> 1 / 2 ^ 53"
    by (simp add: q_def power_int_minus_divide)
  have qpos: "0 < q" unfolding q_def using xpos by (rule round_double_pos)
  have "q \<le> 1 + 1 / 2 ^ 53" using e1 xle by linarith
  then have "q * 100 < 2 powi 7" by simp
  moreover have "0 < q * 100" using qpos by simp
  ultimately have e2: "\<bar>y - q * 100\<bar> \<le> 1 / 2 ^ 47"
    using round_double_error_below [of "q * 100" 7]
    by (simp add: y_def power_int_minus_divide)
  have "y - 100 * x = (y - q * 100) + 100 * (q - x)" by (simp add: algebra_simps)
  then have "\<bar>y - 100 * x\<bar> \<le> \<bar>y - q * 100\<bar> + \<bar>100 * (q - x)\<bar>"
    by (simp only: abs_triangle_ineq)
  also have "\<bar>100 * (q - x)\<bar> = 100 * \<bar>q - x\<bar>" by (subst abs_mult) simp
  finally have "\<bar>y - 100 * x\<bar> \<le> \<bar>y - q * 100\<bar> + 100 * \<bar>q - x\<bar>" .
  also have "\<dots> \<le> 1 / 2 ^ 47 + 100 * (1 / 2 ^ 53)"
    using e1 e2 by (intro add_mono mult_left_mono) simp_all
  also have "\<dots> = 164 / 2 ^ 53" by simp
  finally show ?thesis by (simp add: y_def q_def x_def)
qed

lemma floor_near_fraction:
  fixes N D :: int
  assumes "0 < D" and "N mod D \<noteq> 0" and "\<bar>y - of_int N / of_int D\<bar> < 1 / of_int D"
  shows "\<lfloor>y :: rat\<rfloor> = N div D"
proof (rule floor_unique)
  define k where "k = N div D"
  define r where "r = N mod D"
  have N: "N = D * k + r" by (simp add: k_def r_def)
  have "0 \<le> N mod D" "N mod D < D" using assms(1) by simp_all
  with assms(2) have r: "1 \<le> r" "r \<le> D - 1" unfolding r_def by linarith+
  have Dr: "(0::rat) < of_int D" using assms(1) by simp
  have frac: "(of_int N :: rat) / of_int D = of_int k + of_int r / of_int D"
    using Dr by (simp add: N field_simps)
  have lo: "1 / of_int D \<le> (of_int r :: rat) / of_int D"
    using r(1) Dr by (simp add: divide_right_mono)
  have "(of_int r :: rat) \<le> of_int (D - 1)" using r(2) by (simp only: of_int_le_iff)
  then have "(of_int r :: rat) \<le> of_int D - 1" by simp
  then have "(of_int r :: rat) / of_int D \<le> (of_int D - 1) / of_int D"
    using Dr by (simp add: divide_right_mono)
  also have "\<dots> = 1 - 1 / of_int D" using Dr by (simp add: field_simps)
  finally have hi: "(of_int r :: rat) / of_int D \<le> 1 - 1 / of_int D" .
  have near: "of_int N / of_int D - 1 / of_int D < y" "y < of_int N / of_int D + 1 / of_int D"
    using assms(3) by (auto simp: abs_less_iff)
  show "of_int (N div D) \<le> y"
    unfolding k_def [symmetric] using near(1) frac lo by linarith
  show "y < of_int (N div D) + 1"
    unfolding k_def [symmetric] using near(2) frac hi by linarith
qed

lemma floor_near_integer:
  fixes k :: int
  assumes "\<bar>y - of_int k\<bar> < 1"
  shows "\<lfloor>y :: rat\<rfloor> = k \<or> \<lfloor>y\<rfloor> = k - 1"
proof -
  from assms have lo: "of_int k - 1 < y" and hi: "y < of_int k + 1"
    by (simp_all add: abs_less_iff)
  show ?thesis
  proof (cases "of_int k \<le> y")
    case True
    with hi have "\<lfloor>y\<rfloor> = k" by (intro floor_unique) simp_all
    then show ?thesis by simp
  next
    case False
    with lo have "\<lfloor>y\<rfloor> = k - 1" by (intro floor_unique) simp_all
    then show ?thesis by simp
  qed
qed

lemma Math_round_fraction:
  assumes "0 < n"
  shows "Math_round (100 * of_nat c / of_nat n) = (200 * int c + int n) div (2 * int n)"
proof -
  have "100 * (of_nat c :: rat) / of_nat n + 1 / 2
          = of_int (200 * int c + int n) / of_int (2 * int n)"
    using assms by (simp add: field_simps)
  then show ?thesis
    unfolding Math_round_def by (simp only: floor_divide_of_int_eq)
qed

lemma percent_near:
  assumes "0 < n" and "c \<le> n" and "n < 2 ^ 32"
  shows "\<bar>round_double (round_double (of_nat c / of_nat n) * 100) + 1 / 2
           - of_int (200 * int c + int n) / of_int (2 * int n)\<bar> < 1 / of_int (2 * int n)"
proof -
  define y where "y = round_double (round_double (of_nat c / of_nat n) * 100)"
  have T: "of_int (200 * int c + int n) / of_int (2 * int n)
             = 100 * (of_nat c :: rat) / of_nat n + 1 / 2"
    using assms(1) by (simp add: field_simps)
  have err: "\<bar>y - 100 * of_nat c / of_nat n\<bar> \<le> 164 / 2 ^ 53"
  proof (cases "c = 0")
    case True
    then show ?thesis by (simp add: y_def round_double_def)
  next
    case False
    then have "0 < c" by simp
    from percent_error [OF this assms(2)] show ?thesis by (simp add: y_def)
  qed
  have "(of_nat n :: rat) < of_nat (2 ^ 32)"
    using assms(3) by (simp only: of_nat_less_iff)
  then have "(of_nat n :: rat) < 2 ^ 32" by simp
  then have "164 * (2 * (of_nat n :: rat)) < 2 ^ 53" by simp
  then have small: "(164 :: rat) / 2 ^ 53 < 1 / (2 * of_nat n)"
    using assms(1) by (simp add: field_simps)
  from err small have "\<bar>y - 100 * of_nat c / of_nat n\<bar> < 1 / (2 * of_nat n)"
    by (rule le_less_trans)
  moreover have "y + 1 / 2 - of_int (200 * int c + int n) / of_int (2 * int n)
                   = y - 100 * of_nat c / of_nat n"
    unfolding T by simp
  moreover have "1 / of_int (2 * int n) = 1 / (2 * of_nat n :: rat)" by simp
  ultimately show ?thesis unfolding y_def by (simp only:)
qed

lemma percent_exact:
  assumes "0 < n" and "c \<le> n" and "n < 2 ^ 32" and "\<not> exact_half c n"
  shows "percent c n = Math_round (100 * of_nat c / of_nat n)"
proof -
  have D: "0 < 2 * int n" using assms(1) by simp
  have "(200 * int c + int n) mod (2 * int n) = int ((200 * c + n) mod (2 * n))"
    by (simp add: zmod_int)
  with assms(4) have nz: "(200 * int c + int n) mod (2 * int n) \<noteq> 0"
    by (simp add: exact_half_def)
  have "percent c n = (200 * int c + int n) div (2 * int n)"
    unfolding percent_def Math_round_def
    using D nz percent_near [OF assms(1,2,3)] by (rule floor_near_fraction)
  then show ?thesis by (simp add: Math_round_fraction [OF assms(1)])
qed

lemma percent_half:
  assumes "0 < n" and "c \<le> n" and "n < 2 ^ 32" and "exact_half c n"
  shows "percent c n = Math_round (100 * of_nat c / of_nat n)
         \<or> percent c n = Math_round (100 * of_nat c / of_nat n) - 1"
proof -
  define k where "k = (200 * int c + int n) div (2 * int n)"
  have "(200 * int c + int n) mod (2 * int n) = int ((200 * c + n) mod (2 * n))"
    by (simp add: zmod_int)
  with assms(4) have "(200 * int c + int n) mod (2 * int n) = 0"
    by (simp add: exact_half_def)
  then have "200 * int c + int n = 2 * int n * k"
    using mult_div_mod_eq [of "2 * int n" "200 * int c + int n"] by (simp add: k_def)
  then have "(of_int (200 * int c + int n) :: rat) / of_int (2 * int n) = of_int k"
    using assms(1) by simp
  with percent_near [OF assms(1,2,3)]
  have "\<bar>round_double (round_double (of_nat c / of_nat n) * 100) + 1 / 2 - of_int k\<bar>
          < 1 / of_int (2 * int n)"
    by simp
  also have "1 / of_int (2 * int n) \<le> (1 :: rat)" using assms(1) by simp
  finally have "percent c n = k \<or> percent c n = k - 1"
    unfolding percent_def Math_round_def by (rule floor_near_integer)
  then show ?thesis by (simp add: Math_round_fraction [OF assms(1)] k_def)
qed

lemma exact_half_iff:
  assumes "0 < n"
  shows "exact_half c n \<longleftrightarrow> (\<exists>j :: int. 100 * of_nat c / of_nat n = (of_int j :: rat) + 1 / 2)"
proof
  assume "exact_half c n"
  then have "2 * n dvd 200 * c + n" by (simp add: exact_half_def mod_eq_0_iff_dvd)
  then obtain m where m: "200 * c + n = 2 * n * m" by (auto simp: dvd_def)
  then have "(of_nat (200 * c + n) :: rat) = of_nat (2 * n * m)"
    by (simp only:)
  then have "(200 * of_nat c + of_nat n :: rat) = 2 * of_nat n * of_nat m"
    by simp
  then have "100 * of_nat c / of_nat n = (of_int (int m - 1) :: rat) + 1 / 2"
    using assms by (simp add: field_simps)
  then show "\<exists>j :: int. 100 * of_nat c / of_nat n = (of_int j :: rat) + 1 / 2" by blast
next
  assume "\<exists>j :: int. 100 * of_nat c / of_nat n = (of_int j :: rat) + 1 / 2"
  then obtain j :: int where "100 * of_nat c / of_nat n = (of_int j :: rat) + 1 / 2" by blast
  then have "(200 * of_nat c + of_nat n :: rat) = 2 * of_nat n * (of_int j + 1)"
    using assms by (simp add: field_simps)
  then have "(of_int (200 * int c + int n) :: rat) = of_int (2 * int n * (j + 1))"
    by simp
  then have "200 * int c + int n = 2 * int n * (j + 1)"
    by (simp only: of_int_eq_iff)
  then have "(200 * int c + int n) mod (2 * int n) = 0" by simp
  then have "int ((200 * c + n) mod (2 * n)) = 0" by (simp add: zmod_int)
  then show "exact_half c n" by (simp add: exact_half_def)
qed

text \<open>
  C4, as the code has it. For a step list shorter than \<open>2^32\<close>, as every JavaScript array
  is, the displayed progress is 0 when the list is empty. Otherwise it is \<^verbatim>\<open>Math.round\<close>
  of the double-precision product of completed/total and 100, and that equals
  round(100 * completed / total), a half rounded up, whenever 100 * completed / total is
  not exactly halfway between two integers; when it is exactly halfway, the displayed
  value is that rounding or one less.
\<close>

theorem progress_percentage:
  assumes "length xs < 2 ^ 32"
  shows "(xs = [] \<longrightarrow> progress xs = 0)
       \<and> (xs \<noteq> [] \<and> \<not> exact_half (completed_count xs) (length xs) \<longrightarrow>
            progress xs = Math_round (100 * of_nat (completed_count xs) / of_nat (length xs)))
       \<and> (xs \<noteq> [] \<and> exact_half (completed_count xs) (length xs) \<longrightarrow>
            progress xs = Math_round (100 * of_nat (completed_count xs) / of_nat (length xs))
            \<or> progress xs
                = Math_round (100 * of_nat (completed_count xs) / of_nat (length xs)) - 1)"
proof (intro conjI impI)
  assume "xs = []"
  then show "progress xs = 0" by (simp add: progress_def)
next
  assume a: "xs \<noteq> [] \<and> \<not> exact_half (completed_count xs) (length xs)"
  then have "0 < length xs" by simp
  from percent_exact [OF this completed_count_le_length assms] a
  show "progress xs = Math_round (100 * of_nat (completed_count xs) / of_nat (length xs))"
    by (simp add: progress_def)
next
  assume a: "xs \<noteq> [] \<and> exact_half (completed_count xs) (length xs)"
  then have "0 < length xs" by simp
  from percent_half [OF this completed_count_le_length assms] a
  show "progress xs = Math_round (100 * of_nat (completed_count xs) / of_nat (length xs))
        \<or> progress xs
            = Math_round (100 * of_nat (completed_count xs) / of_nat (length xs)) - 1"
    by (simp add: progress_def)
qed

theorem progress_percentage_witness:
  "progress [] = 0
   \<and> [screenshot_step Completed, screenshot_step Pending, screenshot_step Pending] \<noteq> []
   \<and> \<not> exact_half
         (completed_count [screenshot_step Completed, screenshot_step Pending, screenshot_step Pending])
         (length [screenshot_step Completed, screenshot_step Pending, screenshot_step Pending])
   \<and> progress [screenshot_step Completed, screenshot_step Pending, screenshot_step Pending] = 33
   \<and> progress [screenshot_step Completed, screenshot_step Pending, screenshot_step Pending]
       = Math_round (100 * of_nat (completed_count [screenshot_step Completed, screenshot_step Pending, screenshot_step Pending]) / of_nat (length [screenshot_step Completed, screenshot_step Pending, screenshot_step Pending]))
   \<and> exact_half
         (completed_count (replicate 23 (screenshot_step Completed) @ replicate 17 (screenshot_step Pending)))
         (length (replicate 23 (screenshot_step Completed) @ replicate 17 (screenshot_step Pending)))
   \<and> progress (replicate 23 (screenshot_step Completed) @ replicate 17 (screenshot_step Pending)) = 57
   \<and> progress (replicate 23 (screenshot_step Completed) @ replicate 17 (screenshot_step Pending))
       = Math_round (100 * of_nat (completed_count (replicate 23 (screenshot_step Completed) @ replicate 17 (screenshot_step Pending))) / of_nat (length (replicate 23 (screenshot_step Completed) @ replicate 17 (screenshot_step Pending)))) - 1"
proof -
  let ?B = "[screenshot_step Completed, screenshot_step Pending, screenshot_step Pending]"
  let ?C = "(replicate 23 (screenshot_step Completed) @ replicate 17 (screenshot_step Pending))"
  have lenA: "length ([] :: step list) < 2 ^ 32" by simp
  have lenB: "length ?B < 2 ^ 32" by simp
  have lenC: "length ?C < 2 ^ 32" by simp
  have neB: "?B \<noteq> []" by simp
  have neC: "?C \<noteq> []" by simp
  have nhB: "\<not> exact_half (completed_count ?B) (length ?B)" by code_simp
  have hC: "exact_half (completed_count ?C) (length ?C)" by code_simp
  have pB: "progress ?B = 33" by code_simp
  have pC: "progress ?C = 57" by code_simp
  have rC: "Math_round (100 * of_nat (completed_count ?C) / of_nat (length ?C)) = 58" by code_simp
  from progress_percentage [OF lenA] have a: "progress [] = 0" by blast
  from progress_percentage [OF lenB] neB nhB
  have b: "progress ?B = Math_round (100 * of_nat (completed_count ?B) / of_nat (length ?B))" by blast
  from progress_percentage [OF lenC] neC hC
  have "progress ?C = Math_round (100 * of_nat (completed_count ?C) / of_nat (length ?C))
        \<or> progress ?C = Math_round (100 * of_nat (completed_count ?C) / of_nat (length ?C)) - 1"
    by blast
  with pC rC have c: "progress ?C = Math_round (100 * of_nat (completed_count ?C) / of_nat (length ?C)) - 1" by simp
  from a neB nhB pB b hC pC c show ?thesis by blast
qed

text \<open>
  C4 as stated fails where the double product falls just below a half. With 23 of 40 steps
  completed, 23/40 rounds to the double 0.57499999999999996 and its product with 100 to
  57.49999999999999, which \<^verbatim>\<open>Math.round\<close> takes to 57; round(100 * 23 / 40) is
  round(57.5) = 58.
\<close>

theorem progress_percentage_counterexample:
  "length (replicate 23 (screenshot_step Completed) @ replicate 17 (screenshot_step Pending)) = 40
   \<and> completed_count (replicate 23 (screenshot_step Completed) @ replicate 17 (screenshot_step Pending)) = 23
   \<and> progress (replicate 23 (screenshot_step Completed) @ replicate 17 (screenshot_step Pending)) = 57
   \<and> Math_round (100 * of_nat (completed_count (replicate 23 (screenshot_step Completed) @ replicate 17 (screenshot_step Pending))) / of_nat (length (replicate 23 (screenshot_step Completed) @ replicate 17 (screenshot_step Pending)))) = 58"
  by code_simp

section \<open>Progress within a run\<close>

lemma filter_length_less:
  "length xs = length ys \<Longrightarrow> (\<And>k. k < length xs \<Longrightarrow> Q (ys ! k) \<Longrightarrow> P (xs ! k)) \<Longrightarrow>
   j < length xs \<Longrightarrow> P (xs ! j) \<Longrightarrow> \<not> Q (ys ! j)
   \<Longrightarrow> length (filter Q ys) < length (filter P xs)"
proof (induction xs ys arbitrary: j rule: list_induct2)
  case Nil
  then show ?case by simp
next
  case (Cons x xs y ys)
  have le: "length (filter Q ys) \<le> length (filter P xs)"
  proof (rule filter_length_mono)
    show "length ys = length xs" using Cons.hyps by simp
  next
    fix k assume "k < length ys" "Q (ys ! k)"
    then show "P (xs ! k)" using Cons.prems(1) [of "Suc k"] Cons.hyps by simp
  qed
  have head: "Q y \<Longrightarrow> P x" using Cons.prems(1) [of 0] by simp
  show ?case
  proof (cases j)
    case 0
    with Cons.prems have "P x" "\<not> Q y" by simp_all
    with le show ?thesis by simp
  next
    case (Suc i)
    have "length (filter Q ys) < length (filter P xs)"
    proof (rule Cons.IH)
      fix k assume "k < length xs" "Q (ys ! k)"
      then show "P (xs ! k)" using Cons.prems(1) [of "Suc k"] by simp
    next
      show "i < length xs" using Cons.prems(2) Suc by simp
    next
      show "P (xs ! i)" using Cons.prems(3) Suc by simp
    next
      show "\<not> Q (ys ! i)" using Cons.prems(4) Suc by simp
    qed
    with head show ?thesis by auto
  qed
qed

lemma completed_count_not_decreased:
  assumes "js_get m ''type'' \<noteq> Some (JStr ''TASK_STARTED'')" and "keeps_completed s m"
  shows "completed_count (steps s) \<le> completed_count (steps (after_message nts s (JSON m)))"
  unfolding completed_count_def
proof (rule filter_length_mono)
  show "length (steps s) = length (steps (after_message nts s (JSON m)))"
    using assms(1) by (simp add: length_steps_after_message)
next
  fix k assume k: "k < length (steps s)" and c: "status (steps s ! k) = Completed"
  from assms(2) k c
  have "js_get m ''type'' = Some (JStr ''STEP_STARTED'')
          \<or> js_get m ''type'' = Some (JStr ''STEP_FAILED'')
        \<Longrightarrow> \<not> index_is (js_get m ''index'') k"
    by (auto simp: keeps_completed_def list_all_enumerate)
  with assms(1) k c show "status (steps (after_message nts s (JSON m)) ! k) = Completed"
    by (auto simp: status_after_message)
qed

lemma completed_count_decreased:
  assumes "js_get m ''type'' \<noteq> Some (JStr ''TASK_STARTED'')" and "\<not> keeps_completed s m"
  shows "completed_count (steps (after_message nts s (JSON m))) < completed_count (steps s)"
proof -
  from assms(2) have ty: "js_get m ''type'' = Some (JStr ''STEP_STARTED'')
          \<or> js_get m ''type'' = Some (JStr ''STEP_FAILED'')"
    by (auto simp: keeps_completed_def split: if_splits)
  with assms(2) obtain j where j: "j < length (steps s)"
    and hit: "index_is (js_get m ''index'') j" and c: "status (steps s ! j) = Completed"
    by (auto simp: keeps_completed_def list_all_enumerate)
  show ?thesis
    unfolding completed_count_def
  proof (rule filter_length_less [where j = j])
    show "length (steps s) = length (steps (after_message nts s (JSON m)))"
      using assms(1) by (simp add: length_steps_after_message)
  next
    fix k assume "k < length (steps s)"
      and "status (steps (after_message nts s (JSON m)) ! k) = Completed"
    with assms(1) ty show "status (steps s ! k) = Completed"
      by (auto simp: status_after_message split: if_splits)
  next
    show "j < length (steps s)" by (rule j)
  next
    show "status (steps s ! j) = Completed" by (rule c)
  next
    show "status (steps (after_message nts s (JSON m)) ! j) \<noteq> Completed"
      using assms(1) ty j hit by (auto simp: status_after_message)
  qed
qed

lemma completed_fraction_mono_iff:
  assumes "length ys = length xs"
  shows "completed_fraction xs \<le> completed_fraction ys
         \<longleftrightarrow> xs = [] \<or> completed_count xs \<le> completed_count ys"
proof (cases "xs = []")
  case True
  with assms show ?thesis by (simp add: completed_fraction_def)
next
  case False
  with assms have ys: "ys \<noteq> []" by auto
  from False have pos: "(0::rat) < of_nat (length xs)" by simp
  have "completed_fraction xs \<le> completed_fraction ys
        \<longleftrightarrow> (of_nat (completed_count xs) :: rat) / of_nat (length xs)
            \<le> of_nat (completed_count ys) / of_nat (length xs)"
    using False ys assms by (simp add: completed_fraction_def)
  also have "\<dots> \<longleftrightarrow> (of_nat (completed_count xs) :: rat) \<le> of_nat (completed_count ys)"
    using pos by (simp add: divide_le_cancel)
  also have "\<dots> \<longleftrightarrow> completed_count xs \<le> completed_count ys"
    by simp
  finally show ?thesis using False by simp
qed

lemma progress_not_decreased:
  assumes "js_get m ''type'' \<noteq> Some (JStr ''TASK_STARTED'')" and "keeps_completed s m"
  shows "progress (steps s) \<le> progress (steps (after_message nts s (JSON m)))"
proof (cases "steps s = []")
  case True
  with length_steps_after_message [OF assms(1), of nts s] show ?thesis
    by (simp add: progress_def)
next
  case False
  then have pos: "0 < length (steps s)" by simp
  from percent_mono [OF pos completed_count_not_decreased [OF assms]]
  show ?thesis
    using pos length_steps_after_message [OF assms(1), of nts s] by (simp add: progress_def)
qed

text \<open>
  C5, as the code has it. Within a run (the message is not a \<^verbatim>\<open>TASK_STARTED\<close>) the plan
  keeps its length, and the progress value completed/total after the message is at least
  what it was before if and only if the message keeps the completed steps, that is, unless
  it is a \<^verbatim>\<open>STEP_STARTED\<close> or \<^verbatim>\<open>STEP_FAILED\<close> naming a step that is completed. Under
  a message that keeps them neither the count of completed steps nor the displayed
  percentage decreases; under one that does not, the count goes down.
\<close>

theorem progress_not_decreasing:
  assumes "js_get m ''type'' \<noteq> Some (JStr ''TASK_STARTED'')"
  shows "length (steps (after_message nts s (JSON m))) = length (steps s)
         \<and> (completed_fraction (steps s)
              \<le> completed_fraction (steps (after_message nts s (JSON m)))
            \<longleftrightarrow> keeps_completed s m)
         \<and> (if keeps_completed s m
            then completed_count (steps s)
                   \<le> completed_count (steps (after_message nts s (JSON m)))
                 \<and> progress (steps s) \<le> progress (steps (after_message nts s (JSON m)))
            else completed_count (steps (after_message nts s (JSON m)))
                   < completed_count (steps s))"
proof (intro conjI)
  show len: "length (steps (after_message nts s (JSON m))) = length (steps s)"
    using assms by (rule length_steps_after_message)
  show counts: "if keeps_completed s m
     then completed_count (steps s) \<le> completed_count (steps (after_message nts s (JSON m)))
          \<and> progress (steps s) \<le> progress (steps (after_message nts s (JSON m)))
     else completed_count (steps (after_message nts s (JSON m))) < completed_count (steps s)"
    using completed_count_not_decreased [OF assms] completed_count_decreased [OF assms]
      progress_not_decreased [OF assms]
    by simp
  show "completed_fraction (steps s) \<le> completed_fraction (steps (after_message nts s (JSON m)))
          \<longleftrightarrow> keeps_completed s m"
  proof (cases "keeps_completed s m")
    case True
    with counts show ?thesis by (simp add: completed_fraction_mono_iff [OF len])
  next
    case False
    with counts have lt: "completed_count (steps (after_message nts s (JSON m)))
                            < completed_count (steps s)"
      by simp
    then have "steps s \<noteq> []" by (auto simp: completed_count_def)
    with lt False show ?thesis by (simp add: completed_fraction_mono_iff [OF len])
  qed
qed

theorem progress_not_decreasing_witness:
  "js_get (JObj [(''type'', JStr ''STEP_COMPLETED''), (''index'', JNum 0),
                 (''duration_ms'', JNum 12)]) ''type'' \<noteq> Some (JStr ''TASK_STARTED'')
   \<and> keeps_completed
        (run decimal initial_state
           [task_started [navigate ''https://example.com'', click ''#go''], step_started 0])
        (JObj [(''type'', JStr ''STEP_COMPLETED''), (''index'', JNum 0),
               (''duration_ms'', JNum 12)])
   \<and> completed_fraction (steps (run decimal initial_state
           [task_started [navigate ''https://example.com'', click ''#go''], step_started 0]))
       = 0
   \<and> completed_fraction (steps (after_message decimal
         (run decimal initial_state
            [task_started [navigate ''https://example.com'', click ''#go''], step_started 0])
         (JSON (JObj [(''type'', JStr ''STEP_COMPLETED''), (''index'', JNum 0),
                      (''duration_ms'', JNum 12)]))))
       = 1 / 2
   \<and> completed_fraction (steps (run decimal initial_state
           [task_started [navigate ''https://example.com'', click ''#go''], step_started 0]))
       \<le> completed_fraction (steps (after_message decimal
         (run decimal initial_state
            [task_started [navigate ''https://example.com'', click ''#go''], step_started 0])
         (JSON (JObj [(''type'', JStr ''STEP_COMPLETED''), (''index'', JNum 0),
                      (''duration_ms'', JNum 12)]))))
   \<and> progress (steps (run decimal initial_state
           [task_started [navigate ''https://example.com'', click ''#go''], step_started 0]))
       = 0
   \<and> progress (steps (after_message decimal
         (run decimal initial_state
            [task_started [navigate ''https://example.com'', click ''#go''], step_started 0])
         (JSON (JObj [(''type'', JStr ''STEP_COMPLETED''), (''index'', JNum 0),
                      (''duration_ms'', JNum 12)]))))
       = 50"
proof -
  let ?s = "run decimal initial_state
              [task_started [navigate ''https://example.com'', click ''#go''], step_started 0]"
  let ?m = "JObj [(''type'', JStr ''STEP_COMPLETED''), (''index'', JNum 0),
                  (''duration_ms'', JNum 12)]"
  have h: "js_get ?m ''type'' \<noteq> Some (JStr ''TASK_STARTED'')"
    by (simp add: js_get_def)
  have keeps: "keeps_completed ?s ?m"
    by code_simp
  have before: "completed_fraction (steps ?s) = 0"
    by code_simp
  have after: "completed_fraction (steps (after_message decimal ?s (JSON ?m))) = 1 / 2"
    by code_simp
  have p0: "progress (steps ?s) = 0"
    by code_simp
  have p1: "progress (steps (after_message decimal ?s (JSON ?m))) = 50"
    by code_simp
  from progress_not_decreasing [OF h, of decimal ?s] keeps
  have "completed_fraction (steps ?s)
          \<le> completed_fraction (steps (after_message decimal ?s (JSON ?m)))"
    by blast
  with h keeps before after p0 p1 show ?thesis by blast
qed

text \<open>
  C5 as stated fails within one run: a \<^verbatim>\<open>STEP_STARTED\<close> that names the completed step of
  a one-step plan makes it active again, and the progress value falls from 1 to 0, the displayed
  percentage from 100 to 0.
\<close>

theorem progress_decreases_counterexample:
  "completed_fraction (steps (run decimal initial_state
      [task_started [navigate ''https://example.com''], step_started 0, step_completed 0 12]))
     = 1
   \<and> completed_fraction (steps (run decimal initial_state
      [task_started [navigate ''https://example.com''], step_started 0, step_completed 0 12,
       step_started 0]))
     = 0
   \<and> progress (steps (run decimal initial_state
      [task_started [navigate ''https://example.com''], step_started 0, step_completed 0 12]))
     = 100
   \<and> progress (steps (run decimal initial_state
      [task_started [navigate ''https://example.com''], step_started 0, step_completed 0 12,
       step_started 0]))
     = 0"
  by code_simp

section \<open>Durations\<close>

lemma duration_sound_nullish: "nullish (duration_ms st) \<Longrightarrow> duration_sound st"
  by (cases "duration_ms st" rule: nullish.cases) (simp_all add: duration_sound_def)

lemma duration_sound_after_message:
  assumes inv: "\<And>k. k < length (steps s) \<Longrightarrow> duration_sound (steps s ! k)"
    and ok: "duration_respected s ev"
    and k: "k < length (steps (after_message nts s ev))"
  shows "duration_sound (steps (after_message nts s ev) ! k)"
proof (cases ev)
  case NotJSON
  with inv k show ?thesis by (simp add: steps_after_message)
next
  case (JSON m)
  show ?thesis
  proof (cases "js_get m ''type'' = Some (JStr ''TASK_STARTED'')")
    case True
    show ?thesis
    proof (cases "\<exists>plan sts. js_get m ''steps'' = Some (JArr plan) \<and> enrich_all nts plan = Inr sts")
      case True
      then obtain plan sts where p: "js_get m ''steps'' = Some (JArr plan)"
        and e: "enrich_all nts plan = Inr sts" by blast
      with JSON \<open>js_get m ''type'' = Some (JStr ''TASK_STARTED'')\<close>
      have eq: "steps (after_message nts s ev) = sts" by (simp add: steps_after_message)
      with k have "sts ! k \<in> set sts" by simp
      with enrich_all_pending [OF e] have "duration_ms (sts ! k) = Some JNull" by blast
      then show ?thesis using eq by (simp add: duration_sound_nullish)
    next
      case False
      with JSON \<open>js_get m ''type'' = Some (JStr ''TASK_STARTED'')\<close>
      have "steps (after_message nts s ev) = steps s"
        by (auto simp: steps_after_message split: option.splits json.splits sum.splits)
      with inv k show ?thesis by simp
    qed
  next
    case False
    with JSON k have k': "k < length (steps s)" by (simp add: length_steps_after_message)
    note old = inv [OF k']
    consider (started) "js_get m ''type'' = Some (JStr ''STEP_STARTED'')"
      | (completed) "js_get m ''type'' = Some (JStr ''STEP_COMPLETED'')"
      | (failed) "js_get m ''type'' = Some (JStr ''STEP_FAILED'')"
      | (other) "js_get m ''type'' \<noteq> Some (JStr ''STEP_STARTED'')"
          "js_get m ''type'' \<noteq> Some (JStr ''STEP_COMPLETED'')"
          "js_get m ''type'' \<noteq> Some (JStr ''STEP_FAILED'')"
      by blast
    then show ?thesis
    proof cases
      case started
      with ok JSON k' have "\<not> (index_is (js_get m ''index'') k \<and> has_duration (steps s ! k))"
        by (simp add: duration_respected_def list_all_enumerate)
      with started False JSON k' old show ?thesis
        by (auto simp: steps_after_message nth_start_step duration_sound_def has_duration_def)
    next
      case completed
      with ok JSON have "valid_duration (js_get m ''duration_ms'')"
        by (simp add: duration_respected_def)
      with completed False JSON k' old show ?thesis
        by (auto simp: steps_after_message nth_complete_step duration_sound_def)
    next
      case failed
      with ok JSON have "valid_duration (js_get m ''duration_ms'')"
        by (simp add: duration_respected_def)
      with failed False JSON k' old show ?thesis
        by (auto simp: steps_after_message nth_fail_step duration_sound_def)
    next
      case other
      with False JSON k' old show ?thesis by (simp add: steps_after_message)
    qed
  qed
qed

lemma duration_sound_run:
  "(\<And>k. k < length (steps s) \<Longrightarrow> duration_sound (steps s ! k)) \<Longrightarrow>
   durations_respected nts s evs \<Longrightarrow> k < length (steps (run nts s evs)) \<Longrightarrow>
   duration_sound (steps (run nts s evs) ! k)"
proof (induction evs arbitrary: s k)
  case Nil
  then show ?case by simp
next
  case (Cons ev evs)
  from Cons.prems(2) have ok: "duration_respected s ev"
    and rest: "durations_respected nts (after_message nts s ev) evs" by simp_all
  have "duration_sound (steps (run nts (after_message nts s ev) evs) ! k)"
  proof (rule Cons.IH)
    fix j assume "j < length (steps (after_message nts s ev))"
    then show "duration_sound (steps (after_message nts s ev) ! j)"
      using Cons.prems(1) ok by (rule duration_sound_after_message [rotated 2])
  next
    show "durations_respected nts (after_message nts s ev) evs" by (rule rest)
  next
    show "k < length (steps (run nts (after_message nts s ev) evs))"
      using Cons.prems(3) by simp
  qed
  then show ?case by simp
qed

text \<open>
  C7, as the code has it. In every state the observer reaches from its initial state by a
  message sequence in which no \<^verbatim>\<open>STEP_STARTED\<close> names a step that already has a duration
  and every \<^verbatim>\<open>STEP_COMPLETED\<close> and \<^verbatim>\<open>STEP_FAILED\<close> carries a \<^verbatim>\<open>duration_ms\<close> that is
  absent, null or a number not below zero, a step has a non-null \<^verbatim>\<open>duration_ms\<close> only
  when its status is completed or failed, and that duration is then a number not below
  zero. The handler stores \<^verbatim>\<open>message.duration_ms\<close> as it comes and keeps a stored duration
  when the step is started again.
\<close>

theorem duration_only_on_terminal:
  assumes "durations_respected nts initial_state evs"
    and "k < length (steps (run nts initial_state evs))"
    and "has_duration (steps (run nts initial_state evs) ! k)"
  shows "(status (steps (run nts initial_state evs) ! k) = Completed
            \<or> status (steps (run nts initial_state evs) ! k) = Failed)
         \<and> (\<exists>r. duration_ms (steps (run nts initial_state evs) ! k) = Some (JNum r) \<and> 0 \<le> r)"
proof -
  have "duration_sound (steps (run nts initial_state evs) ! k)"
    using _ assms(1,2) by (rule duration_sound_run) (simp add: initial_state_def)
  with assms(3) show ?thesis
    by (cases "duration_ms (steps (run nts initial_state evs) ! k)" rule: valid_duration.cases)
      (auto simp: duration_sound_def has_duration_def)
qed

theorem duration_only_on_terminal_witness:
  "durations_respected decimal initial_state
     [task_started [navigate ''https://example.com'', click ''#go''], step_started 0,
      step_completed 0 12, step_started 1, step_failed 1 30 ''selector not found'']
   \<and> 1 < length (steps (run decimal initial_state
     [task_started [navigate ''https://example.com'', click ''#go''], step_started 0,
      step_completed 0 12, step_started 1, step_failed 1 30 ''selector not found'']))
   \<and> has_duration (steps (run decimal initial_state
     [task_started [navigate ''https://example.com'', click ''#go''], step_started 0,
      step_completed 0 12, step_started 1, step_failed 1 30 ''selector not found'']) ! 1)
   \<and> status (steps (run decimal initial_state
     [task_started [navigate ''https://example.com'', click ''#go''], step_started 0,
      step_completed 0 12, step_started 1, step_failed 1 30 ''selector not found'']) ! 1)
     = Failed
   \<and> duration_ms (steps (run decimal initial_state
     [task_started [navigate ''https://example.com'', click ''#go''], step_started 0,
      step_completed 0 12, step_started 1, step_failed 1 30 ''selector not found'']) ! 1)
     = Some (JNum 30)
   \<and> (\<exists>r. duration_ms (steps (run decimal initial_state
     [task_started [navigate ''https://example.com'', click ''#go''], step_started 0,
      step_completed 0 12, step_started 1, step_failed 1 30 ''selector not found'']) ! 1)
     = Some (JNum r) \<and> 0 \<le> r)"
proof -
  let ?evs = "[task_started [navigate ''https://example.com'', click ''#go''], step_started 0,
      step_completed 0 12, step_started 1, step_failed 1 30 ''selector not found'']"
  have h1: "durations_respected decimal initial_state ?evs"
    by code_simp
  have h2: "1 < length (steps (run decimal initial_state ?evs))"
    by code_simp
  have h3: "has_duration (steps (run decimal initial_state ?evs) ! 1)"
    by code_simp
  have st: "status (steps (run decimal initial_state ?evs) ! 1) = Failed"
    by code_simp
  have du: "duration_ms (steps (run decimal initial_state ?evs) ! 1) = Some (JNum 30)"
    by code_simp
  from duration_only_on_terminal [OF h1 h2 h3]
  have "\<exists>r. duration_ms (steps (run decimal initial_state ?evs) ! 1) = Some (JNum r) \<and> 0 \<le> r"
    by blast
  with h1 h2 h3 st du show ?thesis by blast
qed

text \<open>
  C7 as stated fails in both halves. A \<^verbatim>\<open>STEP_COMPLETED\<close> with \<^verbatim>\<open>duration_ms\<close> -5 leaves
  the step with the negative duration; and a \<^verbatim>\<open>STEP_STARTED\<close> that names a completed step
  makes it active while it keeps the duration 12 it was completed with.
\<close>

theorem duration_counterexample:
  "has_duration (steps (run decimal initial_state
      [task_started [navigate ''https://example.com''], step_started 0,
       step_completed 0 (- 5)]) ! 0)
   \<and> duration_ms (steps (run decimal initial_state
      [task_started [navigate ''https://example.com''], step_started 0,
       step_completed 0 (- 5)]) ! 0) = Some (JNum (- 5))
   \<and> (- 5 :: rat) < 0
   \<and> has_duration (steps (run decimal initial_state
      [task_started [navigate ''https://example.com''], step_started 0, step_completed 0 12,
       step_started 0]) ! 0)
   \<and> status (steps (run decimal initial_state
      [task_started [navigate ''https://example.com''], step_started 0, step_completed 0 12,
       step_started 0]) ! 0) = Active
   \<and> duration_ms (steps (run decimal initial_state
      [task_started [navigate ''https://example.com''], step_started 0, step_completed 0 12,
       step_started 0]) ! 0) = Some (JNum 12)"
  by code_simp

end
